theory Spec2Isabelle
  imports Complex_Main "HOL-Library.Sublist"
begin

unbundle bit_operations_syntax

section \<open>Secure archive extraction (src/infra/archive.ts)\<close>

text \<open>
  The development embeds the limit-enforcing variant of \<^verbatim>\<open>src/infra/archive.ts\<close>
  (the second of the two variants of the file): the path validator, the component
  stripper, the containment check, the resolution of the limits, the zip extractor,
  the \<^verbatim>\<open>onReadEntry\<close> hook of the tar extractor and \<^verbatim>\<open>resolvePackedRootDir\<close>.

  JavaScript strings are modelled as \<^typ>\<open>string\<close>; the code only ever distinguishes
  the slash, the backslash, the dot, the colon and the ASCII letters. The host is
  taken to be a POSIX host, so \<^verbatim>\<open>path\<close> is \<^verbatim>\<open>path.posix\<close> and \<^verbatim>\<open>path.sep\<close> is the
  slash; the working directory of the process is the parameter \<open>cwd\<close>. The functions
  of \<^verbatim>\<open>node:path\<close> are modelled after their implementation in the runtime. The
  archive decoders are outside the file: a zip archive is given by its parsed
  entries, a tar archive by the entries that the decoder hands to the hook. The
  timeout around an extraction is not modelled.
\<close>

subsection \<open>JavaScript string primitives\<close>

definition slash :: char where
  "slash = CHR ''/''"

definition backslash :: char where
  "backslash = CHR 0x5C"

text \<open>\<^verbatim>\<open>s.split("/")\<close>: the result is never empty; \<^verbatim>\<open>"".split("/")\<close> is \<^verbatim>\<open>[""]\<close>.\<close>

fun split_on :: "char \<Rightarrow> string \<Rightarrow> string list" where
  "split_on c [] = [[]]"
| "split_on c (x # xs) =
     (if x = c then [] # split_on c xs
      else (case split_on c xs of
              [] \<Rightarrow> [[x]]
            | y # ys \<Rightarrow> (x # y) # ys))"

text \<open>\<^verbatim>\<open>parts.join("/")\<close>.\<close>

fun join_with :: "char \<Rightarrow> string list \<Rightarrow> string" where
  "join_with c [] = []"
| "join_with c [x] = x"
| "join_with c (x # y # ys) = x @ c # join_with c (y # ys)"

definition startsWith :: "string \<Rightarrow> string \<Rightarrow> bool" where
  "startsWith s pre = prefix pre s"

definition endsWith :: "string \<Rightarrow> string \<Rightarrow> bool" where
  "endsWith s suf = prefix (rev suf) (rev s)"

subsection \<open>The POSIX path library of the host (\<^verbatim>\<open>node:path\<close>)\<close>

text \<open>
  \<^verbatim>\<open>normalizeString(path, allowAboveRoot)\<close> of the path library walks over the
  \<^verbatim>\<open>/\<close>-separated segments of the path and keeps a stack of the segments of the
  result: an empty segment and \<^verbatim>\<open>.\<close> are dropped, \<^verbatim>\<open>..\<close> removes the last
  kept segment unless there is none or it is \<^verbatim>\<open>..\<close> itself, in which case
  \<^verbatim>\<open>..\<close> is kept when \<^verbatim>\<open>allowAboveRoot\<close> holds and dropped otherwise. The stack is
  held with its top first.
\<close>

definition normalize_step :: "bool \<Rightarrow> string list \<Rightarrow> string \<Rightarrow> string list" where
  "normalize_step allowAboveRoot stack seg =
     (if seg = [] \<or> seg = ''.'' then stack
      else if seg = ''..'' then
        (case stack of
           [] \<Rightarrow> (if allowAboveRoot then [''..''] else [])
         | lastSeg # below \<Rightarrow>
             (if lastSeg \<noteq> ''..'' then below
              else if allowAboveRoot then ''..'' # stack else stack))
      else seg # stack)"

definition normalize_segments :: "bool \<Rightarrow> string list \<Rightarrow> string list" where
  "normalize_segments allowAboveRoot segs = rev (foldl (normalize_step allowAboveRoot) [] segs)"

definition normalizeString :: "string \<Rightarrow> bool \<Rightarrow> string" where
  "normalizeString p allowAboveRoot =
     join_with slash (normalize_segments allowAboveRoot (split_on slash p))"

definition posix_isAbsolute :: "string \<Rightarrow> bool" where
  "posix_isAbsolute p = (case p of [] \<Rightarrow> False | c # _ \<Rightarrow> c = slash)"

text \<open>\<^verbatim>\<open>path.posix.normalize\<close>.\<close>

definition posix_normalize :: "string \<Rightarrow> string" where
  "posix_normalize p =
     (if p = [] then ''.''
      else
        let isAbsolute = posix_isAbsolute p;
            trailingSeparator = (last p = slash);
            q = normalizeString p (\<not> isAbsolute)
        in if q = [] then (if isAbsolute then ''/'' else if trailingSeparator then ''./'' else ''.'')
           else
             let q' = (if trailingSeparator then q @ ''/'' else q)
             in if isAbsolute then ''/'' @ q' else q')"

text \<open>
  \<^verbatim>\<open>path.resolve(...args)\<close>: the arguments are taken from the right until an absolute
  one is met; the working directory \<open>cwd\<close> of the process is taken last.
\<close>

fun resolve_args :: "string list \<Rightarrow> string \<Rightarrow> string \<times> bool" where
  "resolve_args [] resolvedPath = (resolvedPath, False)"
| "resolve_args (p # ps) resolvedPath =
     (if p = [] then resolve_args ps resolvedPath
      else if posix_isAbsolute p then (p @ ''/'' @ resolvedPath, True)
      else resolve_args ps (p @ ''/'' @ resolvedPath))"

definition path_resolve :: "string \<Rightarrow> string list \<Rightarrow> string" where
  "path_resolve cwd args =
     (case resolve_args (rev args @ [cwd]) [] of
        (resolvedPath, resolvedAbsolute) \<Rightarrow>
          let q = normalizeString resolvedPath (\<not> resolvedAbsolute)
          in if resolvedAbsolute then ''/'' @ q
             else if q \<noteq> [] then q else ''.'')"


text \<open>
  \<^verbatim>\<open>path.dirname(path)\<close>: trailing separators are skipped, then the path is cut at
  the last separator that is not its first character.
\<close>

definition path_dirname :: "string \<Rightarrow> string" where
  "path_dirname p =
     (case p of
        [] \<Rightarrow> ''.''
      | c # rest \<Rightarrow>
          let hasRoot = (c = slash);
              upto = dropWhile (\<lambda>x. x \<noteq> slash) (dropWhile (\<lambda>x. x = slash) (rev rest))
          in if upto = [] then (if hasRoot then ''/'' else ''.'')
             else if hasRoot \<and> length upto = 1 then ''//''
             else take (length upto) p)"

subsection \<open>Errors\<close>

text \<open>
  Every \<^verbatim>\<open>throw new Error(...)\<close> of the file is one constructor, carrying the entry
  path that the message quotes.
\<close>

datatype archive_error =
    UnsupportedArchive string     \<comment> \<open>\<^verbatim>\<open>unsupported archive: <archivePath>\<close>\<close>
  | DrivePath string              \<comment> \<open>\<^verbatim>\<open>archive entry uses a drive path: <entryPath>\<close>\<close>
  | EscapesDestination string     \<comment> \<open>\<^verbatim>\<open>archive entry escapes destination: <entryPath>\<close>\<close>
  | AbsoluteEntry string          \<comment> \<open>\<^verbatim>\<open>archive entry is absolute: <entryPath>\<close>\<close>
  | LinkEntry string              \<comment> \<open>\<^verbatim>\<open>tar entry is a link: <entryPath>\<close>\<close>
  | ArchiveSizeExceeded           \<comment> \<open>\<^verbatim>\<open>archive size exceeds limit\<close>\<close>
  | EntryCountExceeded            \<comment> \<open>\<^verbatim>\<open>archive entry count exceeds limit\<close>\<close>
  | EntrySizeExceeded             \<comment> \<open>\<^verbatim>\<open>archive entry extracted size exceeds limit\<close>\<close>
  | ExtractedSizeExceeded         \<comment> \<open>\<^verbatim>\<open>archive extracted size exceeds limit\<close>\<close>
  | UnexpectedLayout "string list" \<comment> \<open>\<^verbatim>\<open>unexpected archive layout (dirs: ...)\<close>\<close>
  | NoPackageDir                  \<comment> \<open>\<^verbatim>\<open>unexpected archive layout (no package dir found)\<close>\<close>
  | IoError                       \<comment> \<open>an error raised by the filesystem itself\<close>

text \<open>The error taxonomy of the specification (section 7).\<close>

datatype error_class =
  Unsupported | PathEscape | DisallowedEntryType | LimitExceeded | AmbiguousLayout | Io

fun classify :: "archive_error \<Rightarrow> error_class" where
  "classify (UnsupportedArchive _) = Unsupported"
| "classify (DrivePath _) = PathEscape"
| "classify (EscapesDestination _) = PathEscape"
| "classify (AbsoluteEntry _) = PathEscape"
| "classify (LinkEntry _) = DisallowedEntryType"
| "classify ArchiveSizeExceeded = LimitExceeded"
| "classify EntryCountExceeded = LimitExceeded"
| "classify EntrySizeExceeded = LimitExceeded"
| "classify ExtractedSizeExceeded = LimitExceeded"
| "classify (UnexpectedLayout _) = AmbiguousLayout"
| "classify NoPackageDir = AmbiguousLayout"
| "classify IoError = Io"

subsection \<open>Path safety validator and component stripper\<close>

definition resolveSafeBaseDir :: "string \<Rightarrow> string \<Rightarrow> string" where
  "resolveSafeBaseDir cwd destDir =
     (let resolved = path_resolve cwd [destDir]
      in if endsWith resolved ''/'' then resolved else resolved @ ''/'')"

definition normalizeArchivePath :: "string \<Rightarrow> string" where
  "normalizeArchivePath raw = map (\<lambda>c. if c = backslash then slash else c) raw"

definition is_ascii_letter :: "char \<Rightarrow> bool" where
  "is_ascii_letter c =
     (c \<in> set ''abcdefghijklmnopqrstuvwxyz'' \<or> c \<in> set ''ABCDEFGHIJKLMNOPQRSTUVWXYZ'')"

text \<open>The regular expression \<^verbatim>\<open>/^[a-zA-Z]:[\\/]/\<close>.\<close>

definition isWindowsDrivePath :: "string \<Rightarrow> bool" where
  "isWindowsDrivePath p =
     (case p of
        a # b # c # _ \<Rightarrow> is_ascii_letter a \<and> b = CHR '':'' \<and> (c = backslash \<or> c = slash)
      | _ \<Rightarrow> False)"

definition validateArchiveEntryPath :: "string \<Rightarrow> archive_error + unit" where
  "validateArchiveEntryPath entryPath =
     (if entryPath = [] \<or> entryPath = ''.'' \<or> entryPath = ''./'' then Inr ()
      else if isWindowsDrivePath entryPath then Inl (DrivePath entryPath)
      else
        let normalized = posix_normalize (normalizeArchivePath entryPath)
        in if normalized = ''..'' \<or> startsWith normalized ''../''
           then Inl (EscapesDestination entryPath)
           else if posix_isAbsolute normalized \<or> startsWith normalized ''//''
           then Inl (AbsoluteEntry entryPath)
           else Inr ())"

text \<open>
  \<^verbatim>\<open>stripComponents\<close> is an integer here; \<^verbatim>\<open>Math.max(0, Math.floor(n))\<close> is then
  \<open>max 0 n\<close>, and \<^verbatim>\<open>parts.slice(strip)\<close> is \<open>drop\<close>.
\<close>

definition archive_parts :: "string \<Rightarrow> string list" where
  "archive_parts raw = filter (\<lambda>part. length part > 0 \<and> part \<noteq> ''.'') (split_on slash raw)"

definition stripArchivePath :: "string \<Rightarrow> int \<Rightarrow> string option" where
  "stripArchivePath entryPath stripComponents =
     (let raw = normalizeArchivePath entryPath
      in if raw = [] \<or> raw = ''.'' \<or> raw = ''./'' then None
         else
           let parts = archive_parts raw;
               strip = max 0 stripComponents;
               stripped = (if strip = 0 then join_with slash parts
                           else join_with slash (drop (nat strip) parts));
               result = posix_normalize stripped
           in if result = [] \<or> result = ''.'' \<or> result = ''./'' then None
              else Some result)"

definition resolveCheckedOutPath :: "string \<Rightarrow> string \<Rightarrow> string \<Rightarrow> string \<Rightarrow> archive_error + string" where
  "resolveCheckedOutPath cwd destDir relPath original =
     (let safeBase = resolveSafeBaseDir cwd destDir;
          outPath = path_resolve cwd [destDir, relPath]
      in if \<not> startsWith outPath safeBase then Inl (EscapesDestination original)
         else Inr outPath)"

subsection \<open>Extraction limits\<close>

text \<open>
  A JavaScript \<^verbatim>\<open>number\<close>: a finite value, an infinity or NaN. Only
  \<^verbatim>\<open>Number.isFinite\<close>, \<^verbatim>\<open>Math.floor\<close> and comparisons are applied to it, and these
  are exact on finite values. \<^verbatim>\<open>undefined\<close> is \<open>None\<close>.
\<close>

datatype number = Num rat | PosInfinity | NegInfinity | NaN

text \<open>
  \<^verbatim>\<open>ArchiveExtractLimits\<close> holds optional numbers, \<^verbatim>\<open>Required<ArchiveExtractLimits>\<close>
  holds the resolved integers.
\<close>

record 'a extract_limits =
  maxArchiveBytes :: 'a
  maxEntries :: 'a
  maxExtractedBytes :: 'a
  maxEntryBytes :: 'a

type_synonym ArchiveExtractLimits = "number option extract_limits"

definition clampLimit :: "number option \<Rightarrow> int option" where
  "clampLimit value =
     (case value of
        Some (Num r) \<Rightarrow> (let v = \<lfloor>r\<rfloor> in if v > 0 then Some v else None)
      | _ \<Rightarrow> None)"

text \<open>\<^verbatim>\<open>limits?.field\<close> and \<^verbatim>\<open>a ?? b\<close>.\<close>

definition optional_field :: "('r \<Rightarrow> 'a option) \<Rightarrow> 'r option \<Rightarrow> 'a option" where
  "optional_field f r = (case r of None \<Rightarrow> None | Some x \<Rightarrow> f x)"

definition or_else :: "'a option \<Rightarrow> 'a \<Rightarrow> 'a" where
  "or_else v d = (case v of None \<Rightarrow> d | Some x \<Rightarrow> x)"

definition resolveExtractLimits :: "ArchiveExtractLimits option \<Rightarrow> int extract_limits" where
  "resolveExtractLimits limits =
     \<lparr> maxArchiveBytes = or_else (clampLimit (optional_field maxArchiveBytes limits)) (256 * 1024 * 1024),
       maxEntries = or_else (clampLimit (optional_field maxEntries limits)) 50000,
       maxExtractedBytes = or_else (clampLimit (optional_field maxExtractedBytes limits)) (512 * 1024 * 1024),
       maxEntryBytes = or_else (clampLimit (optional_field maxEntryBytes limits)) (256 * 1024 * 1024) \<rparr>"

text \<open>
  What one limit resolves to, said directly: the floor of a finite value that is at
  least 1, and the default otherwise.
\<close>

definition floor_or_default :: "number option \<Rightarrow> int \<Rightarrow> int" where
  "floor_or_default value d =
     (case value of
        Some (Num x) \<Rightarrow> if x \<ge> 1 then \<lfloor>x\<rfloor> else d
      | _ \<Rightarrow> d)"

subsection \<open>The packed root of an extracted package\<close>




subsection \<open>Filesystem effects\<close>

text \<open>
  The extractor's calls into \<^verbatim>\<open>node:fs\<close> are recorded in the order they are made:
  \<^verbatim>\<open>mkdir(p, {recursive: true})\<close>, \<^verbatim>\<open>writeFile\<close>, \<^verbatim>\<open>createWriteStream\<close> with the
  chunks written to it, \<^verbatim>\<open>unlink\<close> and \<^verbatim>\<open>chmod\<close> (with whether it succeeded).
  Failures of the filesystem other than that of \<^verbatim>\<open>chmod\<close> are not modelled.
\<close>

type_synonym buffer = string

datatype fs_op =
    Mkdir string
  | WriteFile string buffer
  | CreateWriteStream string
  | StreamWrite string buffer
  | Unlink string
  | Chmod string int bool

fun op_path :: "fs_op \<Rightarrow> string" where
  "op_path (Mkdir p) = p"
| "op_path (WriteFile p _) = p"
| "op_path (CreateWriteStream p) = p"
| "op_path (StreamWrite p _) = p"
| "op_path (Unlink p) = p"
| "op_path (Chmod p _ _) = p"

fun is_Chmod :: "fs_op \<Rightarrow> bool" where
  "is_Chmod (Chmod _ _ _) = True"
| "is_Chmod _ = False"

text \<open>The regular files of a filesystem, and the effect of the recorded calls on them.\<close>

type_synonym files = "string \<rightharpoonup> buffer"

fun apply_fs_op :: "files \<Rightarrow> fs_op \<Rightarrow> files" where
  "apply_fs_op fs (Mkdir p) = fs"
| "apply_fs_op fs (WriteFile p b) = fs(p \<mapsto> b)"
| "apply_fs_op fs (CreateWriteStream p) = fs(p \<mapsto> [])"
| "apply_fs_op fs (StreamWrite p b) = fs(p \<mapsto> (case fs p of None \<Rightarrow> b | Some old \<Rightarrow> old @ b))"
| "apply_fs_op fs (Unlink p) = fs(p := None)"
| "apply_fs_op fs (Chmod p m ok) = fs"

definition run_ops :: "files \<Rightarrow> fs_op list \<Rightarrow> files" where
  "run_ops fs ops = foldl apply_fs_op fs ops"

text \<open>The bytes handed to the write stream of \<open>p\<close>.\<close>

fun streamed_bytes :: "string \<Rightarrow> fs_op list \<Rightarrow> int" where
  "streamed_bytes p [] = 0"
| "streamed_bytes p (StreamWrite q b # ops) =
     (if q = p then int (length b) else 0) + streamed_bytes p ops"
| "streamed_bytes p (_ # ops) = streamed_bytes p ops"

subsection \<open>The zip extractor\<close>

text \<open>
  An entry of \<^verbatim>\<open>zip.files\<close>. \<^verbatim>\<open>unixPermissions\<close> is \<open>None\<close> when it is not a number.
  The data is either what \<^verbatim>\<open>entry.nodeStream()\<close> delivers, chunk by chunk, or, when
  the entry has no \<^verbatim>\<open>nodeStream\<close>, the buffer of \<^verbatim>\<open>entry.async("nodebuffer")\<close>.
\<close>

datatype zip_data = NodeStream "buffer list" | NodeBuffer buffer

fun data_bytes :: "zip_data \<Rightarrow> int" where
  "data_bytes (NodeStream chunks) = sum_list (map (\<lambda>c. int (length c)) chunks)"
| "data_bytes (NodeBuffer buf) = int (length buf)"

record zip_entry =
  name :: string
  dir :: bool
  unixPermissions :: "int option"
  data :: zip_data

text \<open>The archive file: its size as \<^verbatim>\<open>fs.stat\<close> reports it and its parsed entries.\<close>

record zip_archive =
  archive_size :: int
  entries :: "zip_entry list"

text \<open>
  \<^verbatim>\<open>onChunkBytes\<close> updates \<^verbatim>\<open>entryBytes\<close> and \<^verbatim>\<open>extractedBytes\<close>; the pair is the
  state it closes over.
\<close>

definition onChunkBytes :: "int extract_limits \<Rightarrow> int \<times> int \<Rightarrow> int \<Rightarrow> archive_error + int \<times> int" where
  "onChunkBytes limits counters bytes =
     (case counters of (entryBytes, extractedBytes) \<Rightarrow>
        let entryBytes' = entryBytes + bytes
        in if entryBytes' > maxEntryBytes limits then Inl EntrySizeExceeded
           else
             let extractedBytes' = extractedBytes + bytes
             in if extractedBytes' > maxExtractedBytes limits then Inl ExtractedSizeExceeded
                else Inr (entryBytes', extractedBytes'))"

text \<open>
  The pipeline readable, budget transform, write stream: each chunk goes through
  \<^verbatim>\<open>onChunkBytes\<close> before it is passed on to the write stream; an error ends the
  pipeline.
\<close>

fun budget_pipeline ::
  "int extract_limits \<Rightarrow> string \<Rightarrow> int \<times> int \<Rightarrow> buffer list \<Rightarrow> (archive_error + int \<times> int) \<times> fs_op list" where
  "budget_pipeline limits outPath counters [] = (Inr counters, [])"
| "budget_pipeline limits outPath counters (chunk # rest) =
     (case onChunkBytes limits counters (int (length chunk)) of
        Inl err \<Rightarrow> (Inl err, [])
      | Inr counters' \<Rightarrow>
          (case budget_pipeline limits outPath counters' rest of
             (r, ops) \<Rightarrow> (r, StreamWrite outPath chunk # ops)))"

text \<open>The \<^verbatim>\<open>try\<close> block that writes one file entry, with its \<^verbatim>\<open>catch\<close>.\<close>

definition write_entry ::
  "int extract_limits \<Rightarrow> string \<Rightarrow> int \<Rightarrow> zip_data \<Rightarrow> (archive_error + int) \<times> fs_op list" where
  "write_entry limits outPath extractedBytes readable =
     (case readable of
        NodeBuffer buf \<Rightarrow>
          (case onChunkBytes limits (0, extractedBytes) (int (length buf)) of
             Inl err \<Rightarrow> (Inl err, [Unlink outPath])
           | Inr counters \<Rightarrow> (Inr (snd counters), [WriteFile outPath buf]))
      | NodeStream chunks \<Rightarrow>
          (case budget_pipeline limits outPath (0, extractedBytes) chunks of
             (Inl err, ops) \<Rightarrow> (Inl err, CreateWriteStream outPath # ops @ [Unlink outPath])
           | (Inr counters, ops) \<Rightarrow> (Inr (snd counters), CreateWriteStream outPath # ops)))"

text \<open>The best-effort permission restore; \<^verbatim>\<open>0o777\<close> is 511.\<close>

definition restore_permissions :: "(string \<Rightarrow> int \<Rightarrow> bool) \<Rightarrow> string \<Rightarrow> int option \<Rightarrow> fs_op list" where
  "restore_permissions chmod_ok outPath perms =
     (case perms of
        None \<Rightarrow> []
      | Some p \<Rightarrow>
          let mode = p AND 511
          in if mode \<noteq> 0 then [Chmod outPath mode (chmod_ok outPath mode)] else [])"

text \<open>
  One turn of the loop over the entries: the result is the error thrown or the new
  value of \<^verbatim>\<open>extractedBytes\<close>, together with the filesystem calls made.
\<close>

definition extractZipEntry ::
  "(string \<Rightarrow> int \<Rightarrow> bool) \<Rightarrow> string \<Rightarrow> string \<Rightarrow> int \<Rightarrow> int extract_limits \<Rightarrow> int \<Rightarrow> zip_entry
     \<Rightarrow> (archive_error + int) \<times> fs_op list" where
  "extractZipEntry chmod_ok cwd destDir strip limits extractedBytes entry =
     (case validateArchiveEntryPath (name entry) of
        Inl err \<Rightarrow> (Inl err, [])
      | Inr _ \<Rightarrow>
          (case stripArchivePath (name entry) strip of
             None \<Rightarrow> (Inr extractedBytes, [])
           | Some relPath \<Rightarrow>
               (case validateArchiveEntryPath relPath of
                  Inl err \<Rightarrow> (Inl err, [])
                | Inr _ \<Rightarrow>
                    (case resolveCheckedOutPath cwd destDir relPath (name entry) of
                       Inl err \<Rightarrow> (Inl err, [])
                     | Inr outPath \<Rightarrow>
                         if dir entry then (Inr extractedBytes, [Mkdir outPath])
                         else
                           (case write_entry limits outPath extractedBytes (data entry) of
                              (Inl err, ops) \<Rightarrow> (Inl err, Mkdir (path_dirname outPath) # ops)
                            | (Inr extractedBytes', ops) \<Rightarrow>
                                (Inr extractedBytes',
                                 Mkdir (path_dirname outPath) # ops @
                                 restore_permissions chmod_ok outPath (unixPermissions entry)))))))"

fun extractZipEntries ::
  "(string \<Rightarrow> int \<Rightarrow> bool) \<Rightarrow> string \<Rightarrow> string \<Rightarrow> int \<Rightarrow> int extract_limits \<Rightarrow> int \<Rightarrow> zip_entry list
     \<Rightarrow> (archive_error + unit) \<times> fs_op list" where
  "extractZipEntries chmod_ok cwd destDir strip limits extractedBytes [] = (Inr (), [])"
| "extractZipEntries chmod_ok cwd destDir strip limits extractedBytes (entry # rest) =
     (case extractZipEntry chmod_ok cwd destDir strip limits extractedBytes entry of
        (Inl err, ops) \<Rightarrow> (Inl err, ops)
      | (Inr extractedBytes', ops) \<Rightarrow>
          (case extractZipEntries chmod_ok cwd destDir strip limits extractedBytes' rest of
             (r, ops') \<Rightarrow> (r, ops @ ops')))"

definition extractZip ::
  "(string \<Rightarrow> int \<Rightarrow> bool) \<Rightarrow> string \<Rightarrow> string \<Rightarrow> int option \<Rightarrow> ArchiveExtractLimits option \<Rightarrow> zip_archive
     \<Rightarrow> (archive_error + unit) \<times> fs_op list" where
  "extractZip chmod_ok cwd destDir stripComponents limits_in archive =
     (let limits = resolveExtractLimits limits_in
      in if archive_size archive > maxArchiveBytes limits then (Inl ArchiveSizeExceeded, [])
         else
           let strip = max 0 (or_else stripComponents 0)
           in if int (length (entries archive)) > maxEntries limits then (Inl EntryCountExceeded, [])
              else extractZipEntries chmod_ok cwd destDir strip limits 0 (entries archive))"

subsection \<open>The tar extractor\<close>

text \<open>What the \<^verbatim>\<open>onReadEntry\<close> hook reads of a tar entry.\<close>

record tar_entry =
  entry_path :: string
  entry_type :: string
  entry_size :: "number option"

definition archiveEntrySize :: "tar_entry \<Rightarrow> int" where
  "archiveEntrySize entry =
     (case entry_size entry of
        Some (Num r) \<Rightarrow> max 0 \<lfloor>r\<rfloor>
      | _ \<Rightarrow> 0)"

definition is_link_type :: "string \<Rightarrow> bool" where
  "is_link_type t =
     (t = ''SymbolicLink'' \<or> t = ''Link'' \<or> t = ''BlockDevice'' \<or>
      t = ''CharacterDevice'' \<or> t = ''FIFO'' \<or> t = ''Socket'')"

text \<open>
  The hook either aborts the unpacker with an error, returns early because the path
  strips to nothing, or runs to its end; in the last case the candidate output path
  that it checked and the new values of \<^verbatim>\<open>entryCount\<close> and \<^verbatim>\<open>extractedBytes\<close> are
  kept.
\<close>

datatype read_entry = Aborted archive_error | Skipped | Passed string int int

definition onReadEntry ::
  "string \<Rightarrow> string \<Rightarrow> int \<Rightarrow> int extract_limits \<Rightarrow> int \<times> int \<Rightarrow> tar_entry \<Rightarrow> read_entry" where
  "onReadEntry cwd destDir strip limits counters entry =
     (case counters of (entryCount, extractedBytes) \<Rightarrow>
        let archiveEntryPath = entry_path entry;
            archiveEntryType = entry_type entry;
            archiveEntrySize = archiveEntrySize entry
        in
          (case validateArchiveEntryPath archiveEntryPath of
             Inl err \<Rightarrow> Aborted err
           | Inr _ \<Rightarrow>
               (case stripArchivePath archiveEntryPath strip of
                  None \<Rightarrow> Skipped
                | Some relPath \<Rightarrow>
                    (case validateArchiveEntryPath relPath of
                       Inl err \<Rightarrow> Aborted err
                     | Inr _ \<Rightarrow>
                         (case resolveCheckedOutPath cwd destDir relPath archiveEntryPath of
                            Inl err \<Rightarrow> Aborted err
                          | Inr outPath \<Rightarrow>
                              if is_link_type archiveEntryType then Aborted (LinkEntry archiveEntryPath)
                              else
                                let entryCount' = entryCount + 1
                                in if entryCount' > maxEntries limits then Aborted EntryCountExceeded
                                   else if archiveEntrySize > maxEntryBytes limits
                                   then Aborted EntrySizeExceeded
                                   else
                                     let extractedBytes' = extractedBytes + archiveEntrySize
                                     in if extractedBytes' > maxExtractedBytes limits
                                        then Aborted ExtractedSizeExceeded
                                        else Passed outPath entryCount' extractedBytes')))))"

text \<open>
  Modelled from the spec: the streaming decoder \<^verbatim>\<open>tar.x\<close> of the \<^verbatim>\<open>tar\<close> package,
  whose code is not in the repository. Following sections 4.5 and 5 of the
  specification, the decoder hands the entries to the hook one at a time, before any
  byte of the entry is written; an abort ends the extraction with the error, and
  the entries after it are never read. The result lists the entries that the hook
  let through, each with the candidate output path the hook checked.
\<close>

fun tar_x ::
  "(int \<times> int \<Rightarrow> tar_entry \<Rightarrow> read_entry) \<Rightarrow> int \<times> int \<Rightarrow> tar_entry list
     \<Rightarrow> (archive_error + unit) \<times> (tar_entry \<times> string) list" where
  "tar_x hook counters [] = (Inr (), [])"
| "tar_x hook counters (entry # rest) =
     (case hook counters entry of
        Aborted err \<Rightarrow> (Inl err, [])
      | Skipped \<Rightarrow> tar_x hook counters rest
      | Passed outPath entryCount extractedBytes \<Rightarrow>
          (case tar_x hook (entryCount, extractedBytes) rest of
             (r, unpacked) \<Rightarrow> (r, (entry, outPath) # unpacked)))"

text \<open>The tar branch of \<^verbatim>\<open>extractArchive\<close>.\<close>

definition extractTar ::
  "string \<Rightarrow> string \<Rightarrow> int option \<Rightarrow> ArchiveExtractLimits option \<Rightarrow> tar_entry list
     \<Rightarrow> (archive_error + unit) \<times> (tar_entry \<times> string) list" where
  "extractTar cwd destDir stripComponents limits_in archive =
     (let strip = max 0 (or_else stripComponents 0);
          limits = resolveExtractLimits limits_in
      in tar_x (onReadEntry cwd destDir strip limits) (0, 0) archive)"

text \<open>
  The entries for which the hook gets as far as the test of the entry's type: the
  path is valid, it strips to something, the stripped path is valid and the
  candidate output path is contained.
\<close>

definition passes_path_checks :: "string \<Rightarrow> string \<Rightarrow> int \<Rightarrow> tar_entry \<Rightarrow> bool" where
  "passes_path_checks cwd destDir strip entry =
     (case validateArchiveEntryPath (entry_path entry) of
        Inl _ \<Rightarrow> False
      | Inr _ \<Rightarrow>
          (case stripArchivePath (entry_path entry) strip of
             None \<Rightarrow> False
           | Some relPath \<Rightarrow>
               (case validateArchiveEntryPath relPath of
                  Inl _ \<Rightarrow> False
                | Inr _ \<Rightarrow>
                    (case resolveCheckedOutPath cwd destDir relPath (entry_path entry) of
                       Inl _ \<Rightarrow> False
                     | Inr _ \<Rightarrow> True))))"

subsection \<open>Example archives\<close>


definition plain_file :: "string \<Rightarrow> tar_entry" where
  "plain_file p = \<lparr>entry_path = p, entry_type = ''File'', entry_size = Some (Num 1)\<rparr>"

definition symlink_entry :: "string \<Rightarrow> tar_entry" where
  "symlink_entry p = \<lparr>entry_path = p, entry_type = ''SymbolicLink'', entry_size = Some (Num 0)\<rparr>"

subsection \<open>The validator as the specification words it\<close>

text \<open>
  Section 4.2 of the specification, step by step: (1) the empty string, \<^verbatim>\<open>.\<close> and
  \<^verbatim>\<open>./\<close> are accepted; (2) a Windows drive prefix is rejected; (3) backslashes
  become forward slashes and the path is normalized lexically; (4) a normalized path
  that is \<^verbatim>\<open>..\<close> or starts with \<^verbatim>\<open>../\<close> is rejected; (5) so is one that starts with
  \<^verbatim>\<open>/\<close> or \<^verbatim>\<open>//\<close>. Every rejection is a PathEscape.
\<close>

definition spec_drive_prefix :: "string \<Rightarrow> bool" where
  "spec_drive_prefix p =
     (length p \<ge> 3 \<and> is_ascii_letter (p ! 0) \<and> p ! 1 = CHR '':'' \<and>
      (p ! 2 = CHR 0x5C \<or> p ! 2 = CHR ''/''))"

definition spec_validateEntryPath :: "string \<Rightarrow> error_class + unit" where
  "spec_validateEntryPath p =
     (if p = [] \<or> p = ''.'' \<or> p = ''./'' then Inr ()
      else if spec_drive_prefix p then Inl PathEscape
      else
        let n = posix_normalize (map (\<lambda>c. if c = CHR 0x5C then CHR ''/'' else c) p)
        in if n = ''..'' \<or> prefix ''../'' n then Inl PathEscape
           else if prefix ''/'' n \<or> prefix ''//'' n then Inl PathEscape
           else Inr ())"

section \<open>Properties\<close>

subsection \<open>Splitting and joining\<close>

lemma split_on_nonempty: "split_on c s \<noteq> []"
  by (induction s) (auto split: list.splits)

lemma split_on_no_sep: "seg \<in> set (split_on c s) \<Longrightarrow> c \<notin> set seg"
  by (induction s arbitrary: seg) (auto split: list.splits if_splits)

lemma split_on_sep_free: "c \<notin> set s \<Longrightarrow> split_on c s = [s]"
  by (induction s) auto

lemma split_on_append_sep: "c \<notin> set a \<Longrightarrow> split_on c (a @ c # b) = a # split_on c b"
  by (induction a) auto

lemma split_join_with:
  "segs \<noteq> [] \<Longrightarrow> \<forall>seg \<in> set segs. c \<notin> set seg \<Longrightarrow> split_on c (join_with c segs) = segs"
proof (induction c segs rule: join_with.induct)
  case (1 c)
  then show ?case by simp
next
  case (2 c x)
  then show ?case by (simp add: split_on_sep_free)
next
  case (3 c x y ys)
  then show ?case by (simp add: split_on_append_sep)
qed

lemma split_on_append: "split_on c (a @ c # b) = split_on c a @ split_on c b"
proof (induction a)
  case Nil
  then show ?case by simp
next
  case (Cons x a)
  then show ?case using split_on_nonempty[of c a] by (auto split: list.splits)
qed

lemma join_with_Nil_iff: "\<forall>s \<in> set segs. s \<noteq> [] \<Longrightarrow> join_with c segs = [] \<longleftrightarrow> segs = []"
  by (induction c segs rule: join_with.induct) auto

lemma hd_join_with: "segs \<noteq> [] \<Longrightarrow> hd segs \<noteq> [] \<Longrightarrow> hd (join_with c segs) = hd (hd segs)"
  by (induction c segs rule: join_with.induct) auto

lemma join_with_last_nonempty:
  "segs \<noteq> [] \<Longrightarrow> last segs \<noteq> [] \<Longrightarrow> join_with c segs \<noteq> []"
  by (induction c segs rule: join_with.induct) auto

lemma last_join_with:
  "segs \<noteq> [] \<Longrightarrow> last segs \<noteq> [] \<Longrightarrow> last (join_with c segs) = last (last segs)"
  by (induction c segs rule: join_with.induct) (auto simp: join_with_last_nonempty)

subsection \<open>Normalization\<close>

lemma normalize_step_mem:
  "x \<in> set (normalize_step a st seg) \<Longrightarrow> x \<in> set st \<or> (x = seg \<and> seg \<noteq> [] \<and> seg \<noteq> ''.'')"
  by (auto simp: normalize_step_def split: if_splits list.splits)

lemma foldl_normalize_step_mem:
  "x \<in> set (foldl (normalize_step a) st segs) \<Longrightarrow>
     x \<in> set st \<or> (x \<in> set segs \<and> x \<noteq> [] \<and> x \<noteq> ''.'')"
proof (induction segs arbitrary: st)
  case Nil
  then show ?case by simp
next
  case (Cons s segs)
  from Cons.IH[OF Cons.prems [simplified]] show ?case
    using normalize_step_mem[of x a st s] by auto
qed

lemma normalize_segments_mem:
  "x \<in> set (normalize_segments a segs) \<Longrightarrow> x \<in> set segs \<and> x \<noteq> [] \<and> x \<noteq> ''.''"
  using foldl_normalize_step_mem[of x a "[]" segs] by (simp add: normalize_segments_def)

lemma archive_parts_mem:
  "x \<in> set (archive_parts raw) \<Longrightarrow> x \<noteq> [] \<and> x \<noteq> ''.'' \<and> slash \<notin> set x"
  by (auto simp: archive_parts_def dest: split_on_no_sep)

lemma normalizeString_join:
  assumes "\<forall>x \<in> set segs. slash \<notin> set x"
  shows "normalizeString (join_with slash segs) a = join_with slash (normalize_segments a segs)"
proof (cases "segs = []")
  case True
  then show ?thesis by (simp add: normalizeString_def normalize_segments_def normalize_step_def)
next
  case False
  with assms show ?thesis by (simp add: normalizeString_def split_join_with)
qed

text \<open>
  Normalizing the join of segments that are neither empty, nor \<^verbatim>\<open>.\<close>, nor contain a
  separator: the result is the join of the normalized segments, or \<^verbatim>\<open>.\<close> when none
  is left.
\<close>

lemma posix_normalize_join_relative:
  assumes ok: "\<forall>x \<in> set segs. x \<noteq> [] \<and> x \<noteq> ''.'' \<and> slash \<notin> set x"
  shows "posix_normalize (join_with slash segs) =
           (if normalize_segments True segs = [] then ''.''
            else join_with slash (normalize_segments True segs))"
proof (cases "segs = []")
  case True
  then show ?thesis by (simp add: posix_normalize_def normalize_segments_def)
next
  case False
  let ?s = "join_with slash segs"
  from False ok have ne: "?s \<noteq> []" by (simp add: join_with_Nil_iff)
  from False ok have "hd segs \<noteq> []" "last segs \<noteq> []" by auto
  with False have h: "hd ?s = hd (hd segs)" and l: "last ?s = last (last segs)"
    by (simp_all add: hd_join_with last_join_with)
  from False ok have "hd (hd segs) \<in> set (hd segs)" "last (last segs) \<in> set (last segs)" by auto
  moreover from False ok have "slash \<notin> set (hd segs)" "slash \<notin> set (last segs)" by auto
  ultimately have "hd ?s \<noteq> slash" "last ?s \<noteq> slash" using h l by metis+
  with ne have na: "\<not> posix_isAbsolute ?s" and nt: "last ?s \<noteq> slash"
    by (auto simp: posix_isAbsolute_def split: list.splits)
  have q: "normalizeString ?s True = join_with slash (normalize_segments True segs)"
    using ok by (simp add: normalizeString_join)
  have "\<forall>x \<in> set (normalize_segments True segs). x \<noteq> []"
    using normalize_segments_mem by blast
  then have "join_with slash (normalize_segments True segs) = [] \<longleftrightarrow> normalize_segments True segs = []"
    by (rule join_with_Nil_iff)
  with ne na nt q show ?thesis by (simp add: posix_normalize_def Let_def)
qed

lemma join_with_not_dot:
  assumes "\<forall>x \<in> set segs. x \<noteq> [] \<and> x \<noteq> ''.'' \<and> slash \<notin> set x"
  shows "join_with slash segs \<noteq> ''.'' \<and> join_with slash segs \<noteq> ''./''"
proof (cases segs)
  case Nil
  then show ?thesis by simp
next
  case (Cons x xs)
  note outer = Cons
  show ?thesis
  proof (cases xs)
    case Nil
    with outer assms show ?thesis by (auto simp: slash_def)
  next
    case (Cons y ys)
    with outer assms show ?thesis by (auto simp: slash_def append_eq_Cons_conv)
  qed
qed

lemma posix_normalize_parts:
  assumes ok: "\<forall>x \<in> set segs. x \<noteq> [] \<and> x \<noteq> ''.'' \<and> slash \<notin> set x"
  shows "posix_normalize (join_with slash segs) \<noteq> [] \<and> posix_normalize (join_with slash segs) \<noteq> ''./''"
proof -
  have "\<forall>x \<in> set (normalize_segments True segs). x \<noteq> [] \<and> x \<noteq> ''.'' \<and> slash \<notin> set x"
    using ok normalize_segments_mem by blast
  from join_with_not_dot[OF this] join_with_Nil_iff[of "normalize_segments True segs" slash] this
  show ?thesis
    by (auto simp: posix_normalize_join_relative[OF ok])
qed

subsection \<open>The component stripper\<close>

lemma archive_parts_trivial:
  "raw = [] \<or> raw = ''.'' \<or> raw = ''./'' \<Longrightarrow> archive_parts raw = []"
  by (auto simp: archive_parts_def slash_def)

lemma stripArchivePath_eq:
  "stripArchivePath p n =
     (let rest = drop (nat n) (archive_parts (normalizeArchivePath p));
          result = posix_normalize (join_with slash rest)
      in if result = ''.'' then None else Some result)"
proof (cases "normalizeArchivePath p = [] \<or> normalizeArchivePath p = ''.'' \<or> normalizeArchivePath p = ''./''")
  case True
  then have "archive_parts (normalizeArchivePath p) = []" by (rule archive_parts_trivial)
  with True show ?thesis by (simp add: stripArchivePath_def posix_normalize_def)
next
  case False
  let ?rest = "drop (nat n) (archive_parts (normalizeArchivePath p))"
  have "\<forall>x \<in> set ?rest. x \<noteq> [] \<and> x \<noteq> ''.'' \<and> slash \<notin> set x"
    using archive_parts_mem by (meson in_set_dropD)
  from posix_normalize_parts[OF this] False show ?thesis
    by (auto simp: stripArchivePath_def Let_def)
qed

lemma stripArchivePath_segments:
  "stripArchivePath p n =
     (let kept = normalize_segments True (drop (nat n) (archive_parts (normalizeArchivePath p)))
      in if kept = [] then None else Some (join_with slash kept))"
proof -
  let ?rest = "drop (nat n) (archive_parts (normalizeArchivePath p))"
  have ok: "\<forall>x \<in> set ?rest. x \<noteq> [] \<and> x \<noteq> ''.'' \<and> slash \<notin> set x"
    using archive_parts_mem by (meson in_set_dropD)
  have "\<forall>x \<in> set (normalize_segments True ?rest). x \<noteq> [] \<and> x \<noteq> ''.'' \<and> slash \<notin> set x"
    using ok normalize_segments_mem by blast
  from join_with_not_dot[OF this] show ?thesis
    by (simp add: stripArchivePath_eq posix_normalize_join_relative[OF ok] Let_def)
qed





subsection \<open>The path validator\<close>

lemma spec_drive_prefix_eq: "spec_drive_prefix p = isWindowsDrivePath p"
proof (cases p)
  case Nil
  then show ?thesis by (simp add: spec_drive_prefix_def isWindowsDrivePath_def)
next
  case (Cons a q)
  note c1 = Cons
  show ?thesis
  proof (cases q)
    case Nil
    with c1 show ?thesis by (simp add: spec_drive_prefix_def isWindowsDrivePath_def)
  next
    case (Cons b r)
    with c1 show ?thesis
      by (cases r) (auto simp: spec_drive_prefix_def isWindowsDrivePath_def backslash_def slash_def)
  qed
qed

lemma posix_isAbsolute_prefix: "posix_isAbsolute n = prefix ''/'' n"
  by (cases n) (auto simp: posix_isAbsolute_def slash_def)

text \<open>
  C1. For every entry path, \<^verbatim>\<open>validateArchiveEntryPath\<close> behaves as the five steps
  of the specification: it accepts the empty string, \<^verbatim>\<open>.\<close> and \<^verbatim>\<open>./\<close>, fails on a
  Windows drive prefix, and otherwise fails exactly when the normalized path, with
  backslashes replaced, is \<^verbatim>\<open>..\<close> or starts with \<^verbatim>\<open>../\<close>, \<^verbatim>\<open>/\<close> or \<^verbatim>\<open>//\<close>; every
  failure is a PathEscape.
\<close>

theorem validateArchiveEntryPath_refines_spec:
  "map_sum classify id (validateArchiveEntryPath p) = spec_validateEntryPath p"
proof -
  have n: "normalizeArchivePath p = map (\<lambda>c. if c = CHR 0x5C then CHR ''/'' else c) p"
    by (simp add: normalizeArchivePath_def backslash_def slash_def)
  show ?thesis
    unfolding validateArchiveEntryPath_def spec_validateEntryPath_def
    by (simp add: spec_drive_prefix_eq posix_isAbsolute_prefix startsWith_def n Let_def)
qed

theorem validateArchiveEntryPath_refines_spec_witness:
  "map_sum classify id (validateArchiveEntryPath ''a/../../b'') = Inl PathEscape
   \<and> map_sum classify id (validateArchiveEntryPath ''a/../b'') = Inr ()"
proof -
  have "spec_validateEntryPath ''a/../../b'' = Inl PathEscape" by code_simp
  moreover have "spec_validateEntryPath ''a/../b'' = Inr ()" by code_simp
  ultimately show ?thesis
    using validateArchiveEntryPath_refines_spec[of "''a/../../b''"]
      validateArchiveEntryPath_refines_spec[of "''a/../b''"]
    by simp
qed

subsection \<open>Extraction limits\<close>

lemma clampLimit_or_else: "or_else (clampLimit v) d = floor_or_default v d"
proof -
  have "\<And>x::rat. (0 < \<lfloor>x\<rfloor>) = (1 \<le> x)" by linarith
  then show ?thesis
    by (auto simp: or_else_def clampLimit_def floor_or_default_def Let_def
        split: option.splits number.splits)
qed

lemma floor_or_default_pos: "0 < d \<Longrightarrow> 0 < floor_or_default v d"
proof -
  have "\<And>x::rat. 1 \<le> x \<Longrightarrow> 0 < \<lfloor>x\<rfloor>" by linarith
  then show "0 < d \<Longrightarrow> 0 < floor_or_default v d"
    by (auto simp: floor_or_default_def split: option.splits number.splits)
qed

text \<open>
  C8, as the claim states it, fails: \<^verbatim>\<open>maxEntries = 0.5\<close> is finite and strictly
  greater than 0, its floor is 0, and the limit resolves to the default 50,000.
\<close>

theorem resolveExtractLimits_fraction_counterexample:
  "(0::rat) < 1 / 2
   \<and> maxEntries (resolveExtractLimits (Some \<lparr>maxArchiveBytes = None, maxEntries = Some (Num (1 / 2)),
         maxExtractedBytes = None, maxEntryBytes = None\<rparr>)) = 50000
   \<and> \<lfloor>1 / 2 :: rat\<rfloor> = 0"
  by (simp add: resolveExtractLimits_def clampLimit_def optional_field_def or_else_def floor_eq_iff)

text \<open>
  C8, amended. Each of the four limits resolves to the floor of the given value when
  that value is a finite number greater than or equal to 1, and otherwise (unset,
  below 1, negative or not finite) to its default: 256 MiB, 50,000, 512 MiB and
  256 MiB. Every resolved limit is a positive integer, so no input disables a check.
\<close>

theorem resolveExtractLimits_floor_or_default:
  "maxArchiveBytes (resolveExtractLimits limits) =
      floor_or_default (optional_field maxArchiveBytes limits) (256 * 1024 * 1024)
   \<and> maxEntries (resolveExtractLimits limits) =
      floor_or_default (optional_field maxEntries limits) 50000
   \<and> maxExtractedBytes (resolveExtractLimits limits) =
      floor_or_default (optional_field maxExtractedBytes limits) (512 * 1024 * 1024)
   \<and> maxEntryBytes (resolveExtractLimits limits) =
      floor_or_default (optional_field maxEntryBytes limits) (256 * 1024 * 1024)
   \<and> 0 < maxArchiveBytes (resolveExtractLimits limits)
   \<and> 0 < maxEntries (resolveExtractLimits limits)
   \<and> 0 < maxExtractedBytes (resolveExtractLimits limits)
   \<and> 0 < maxEntryBytes (resolveExtractLimits limits)"
  by (simp add: resolveExtractLimits_def clampLimit_or_else floor_or_default_pos)

theorem resolveExtractLimits_floor_or_default_witness:
  "maxEntries (resolveExtractLimits (Some \<lparr>maxArchiveBytes = None, maxEntries = Some (Num (7 / 2)),
         maxExtractedBytes = Some NaN, maxEntryBytes = Some (Num (- 3))\<rparr>)) = 3
   \<and> maxEntryBytes (resolveExtractLimits (Some \<lparr>maxArchiveBytes = None, maxEntries = Some (Num (7 / 2)),
         maxExtractedBytes = Some NaN, maxEntryBytes = Some (Num (- 3))\<rparr>)) = 268435456
   \<and> maxExtractedBytes (resolveExtractLimits (Some \<lparr>maxArchiveBytes = None, maxEntries = Some (Num (7 / 2)),
         maxExtractedBytes = Some NaN, maxEntryBytes = Some (Num (- 3))\<rparr>)) = 536870912
   \<and> maxArchiveBytes (resolveExtractLimits None) = 268435456"
  using resolveExtractLimits_floor_or_default[of "Some \<lparr>maxArchiveBytes = None, maxEntries = Some (Num (7 / 2)),
         maxExtractedBytes = Some NaN, maxEntryBytes = Some (Num (- 3))\<rparr>"]
    resolveExtractLimits_floor_or_default[of None]
  by (simp add: floor_or_default_def optional_field_def floor_eq_iff)

subsection \<open>The packed root\<close>





subsection \<open>Stripping and validation\<close>

lemma extractZipEntry_revalidates:
  "validateArchiveEntryPath (name entry) = Inr () \<Longrightarrow>
   stripArchivePath (name entry) strip = Some rel \<Longrightarrow>
   validateArchiveEntryPath rel = Inl err \<Longrightarrow>
   extractZipEntry chmod_ok cwd destDir strip limits extractedBytes entry = (Inl err, [])"
  by (simp add: extractZipEntry_def)

lemma onReadEntry_revalidates:
  "validateArchiveEntryPath (entry_path entry) = Inr () \<Longrightarrow>
   stripArchivePath (entry_path entry) strip = Some rel \<Longrightarrow>
   validateArchiveEntryPath rel = Inl err \<Longrightarrow>
   onReadEntry cwd destDir strip limits counters entry = Aborted err"
  by (cases counters) (simp add: onReadEntry_def)

lemma escape_example_original: "validateArchiveEntryPath ''a/../b'' = Inr ()"
  by code_simp

lemma escape_example_stripped: "stripArchivePath ''a/../b'' 1 = Some ''../b''"
  by code_simp

lemma escape_example_rejected: "validateArchiveEntryPath ''../b'' = Inl (EscapesDestination ''../b'')"
  by code_simp

lemma escape_example_normalized_first: "stripArchivePath (posix_normalize ''a/../b'') 1 = None"
  by code_simp

lemma resolve_default_limits:
  "0 \<le> maxArchiveBytes (resolveExtractLimits None) \<and> 1 \<le> maxEntries (resolveExtractLimits None)"
  by (simp add: resolveExtractLimits_def optional_field_def or_else_def clampLimit_def)

lemma escape_example_zip:
  "extractZip chmod_ok cwd destDir (Some 1) None
     \<lparr>archive_size = 0, entries = [\<lparr>name = ''a/../b'', dir = False, unixPermissions = None,
                                      data = NodeBuffer ''x''\<rparr>]\<rparr>
   = (Inl (EscapesDestination ''../b''), [])"
  using extractZipEntry_revalidates[of "\<lparr>name = ''a/../b'', dir = False, unixPermissions = None,
                                      data = NodeBuffer ''x''\<rparr>" 1 "''../b''" "EscapesDestination ''../b''"]
    escape_example_original escape_example_stripped escape_example_rejected resolve_default_limits
  by (simp add: extractZip_def or_else_def Let_def)

lemma escape_example_tar:
  "extractTar cwd destDir (Some 1) None
     [\<lparr>entry_path = ''a/../b'', entry_type = ''File'', entry_size = Some (Num 1)\<rparr>]
   = (Inl (EscapesDestination ''../b''), [])"
  using onReadEntry_revalidates[of "\<lparr>entry_path = ''a/../b'', entry_type = ''File'', entry_size = Some (Num 1)\<rparr>"
      1 "''../b''" "EscapesDestination ''../b''"]
    escape_example_original escape_example_stripped escape_example_rejected
  by (simp add: extractTar_def or_else_def Let_def)

text \<open>
  C4. Stripping works on the raw segments of the entry path, and both extractors
  validate the stripped path again. The path \<^verbatim>\<open>a/../b\<close> passes validation, its
  stripped form for one component is \<^verbatim>\<open>../b\<close> (had the path been normalized first,
  nothing would have been left), and the stripped form fails validation; an entry
  whose stripped path fails validation is rejected by the zip loop and by the tar
  hook with that error, and nothing is written for it.
\<close>

theorem stripped_path_revalidated:
  "validateArchiveEntryPath ''a/../b'' = Inr ()
   \<and> stripArchivePath ''a/../b'' 1 = Some ''../b''
   \<and> validateArchiveEntryPath ''../b'' = Inl (EscapesDestination ''../b'')
   \<and> stripArchivePath (posix_normalize ''a/../b'') 1 = None
   \<and> (\<forall>entry rel err.
        validateArchiveEntryPath (name entry) = Inr () \<and>
        stripArchivePath (name entry) strip = Some rel \<and>
        validateArchiveEntryPath rel = Inl err \<longrightarrow>
        extractZipEntry chmod_ok cwd destDir strip limits extractedBytes entry = (Inl err, []))
   \<and> (\<forall>entry rel err.
        validateArchiveEntryPath (entry_path entry) = Inr () \<and>
        stripArchivePath (entry_path entry) strip = Some rel \<and>
        validateArchiveEntryPath rel = Inl err \<longrightarrow>
        onReadEntry cwd destDir strip limits counters entry = Aborted err)
   \<and> extractZip chmod_ok cwd destDir (Some 1) None
        \<lparr>archive_size = 0, entries = [\<lparr>name = ''a/../b'', dir = False, unixPermissions = None,
                                         data = NodeBuffer ''x''\<rparr>]\<rparr>
      = (Inl (EscapesDestination ''../b''), [])
   \<and> extractTar cwd destDir (Some 1) None
        [\<lparr>entry_path = ''a/../b'', entry_type = ''File'', entry_size = Some (Num 1)\<rparr>]
      = (Inl (EscapesDestination ''../b''), [])"
proof (intro conjI allI impI)
  show "validateArchiveEntryPath ''a/../b'' = Inr ()" by (rule escape_example_original)
  show "stripArchivePath ''a/../b'' 1 = Some ''../b''" by (rule escape_example_stripped)
  show "validateArchiveEntryPath ''../b'' = Inl (EscapesDestination ''../b'')"
    by (rule escape_example_rejected)
  show "stripArchivePath (posix_normalize ''a/../b'') 1 = None"
    by (rule escape_example_normalized_first)
  show "extractZipEntry chmod_ok cwd destDir strip limits extractedBytes entry = (Inl err, [])"
    if "validateArchiveEntryPath (name entry) = Inr () \<and>
        stripArchivePath (name entry) strip = Some rel \<and>
        validateArchiveEntryPath rel = Inl err" for entry rel err
    using that by (simp add: extractZipEntry_revalidates)
  show "onReadEntry cwd destDir strip limits counters entry = Aborted err"
    if "validateArchiveEntryPath (entry_path entry) = Inr () \<and>
        stripArchivePath (entry_path entry) strip = Some rel \<and>
        validateArchiveEntryPath rel = Inl err" for entry rel err
    using that by (simp add: onReadEntry_revalidates)
  show "extractZip chmod_ok cwd destDir (Some 1) None
        \<lparr>archive_size = 0, entries = [\<lparr>name = ''a/../b'', dir = False, unixPermissions = None,
                                         data = NodeBuffer ''x''\<rparr>]\<rparr>
      = (Inl (EscapesDestination ''../b''), [])"
    by (rule escape_example_zip)
  show "extractTar cwd destDir (Some 1) None
        [\<lparr>entry_path = ''a/../b'', entry_type = ''File'', entry_size = Some (Num 1)\<rparr>]
      = (Inl (EscapesDestination ''../b''), [])"
    by (rule escape_example_tar)
qed

theorem stripped_path_revalidated_witness:
  "extractZipEntry (\<lambda>p m. True) ''/'' ''/dest'' 2 (resolveExtractLimits None) 0
      \<lparr>name = ''x/y/../../etc/passwd'', dir = False, unixPermissions = None, data = NodeBuffer ''root''\<rparr>
    = (Inl (EscapesDestination ''../../etc/passwd''), [])"
proof -
  have a: "validateArchiveEntryPath ''x/y/../../etc/passwd'' = Inr ()" by code_simp
  have b: "stripArchivePath ''x/y/../../etc/passwd'' 2 = Some ''../../etc/passwd''" by code_simp
  have c: "validateArchiveEntryPath ''../../etc/passwd'' = Inl (EscapesDestination ''../../etc/passwd'')" by code_simp
  note gen = stripped_path_revalidated[of 2 "\<lambda>p m. True" "''/''" "''/dest''" "resolveExtractLimits None" 0,
      THEN conjunct2, THEN conjunct2, THEN conjunct2, THEN conjunct2, THEN conjunct1, rule_format]
  show ?thesis by (rule gen[where rel = "''../../etc/passwd''"]) (simp add: a b c)
qed

subsection \<open>The permission restore of the zip extractor\<close>

lemma restore_permissions_Nil:
  "restore_permissions chmod_ok outPath perms = [] \<longleftrightarrow>
     (perms = None \<or> (\<exists>x. perms = Some x \<and> x AND 511 = 0))"
  by (auto simp: restore_permissions_def Let_def split: option.splits)

lemma restore_permissions_mem:
  "op \<in> set (restore_permissions chmod_ok outPath perms) \<Longrightarrow>
     \<exists>x. perms = Some x \<and> x AND 511 \<noteq> 0 \<and> op = Chmod outPath (x AND 511) (chmod_ok outPath (x AND 511))"
  by (auto simp: restore_permissions_def Let_def split: option.splits if_splits)

lemma budget_pipeline_ops:
  "budget_pipeline limits outPath counters chunks = (r, ops) \<Longrightarrow> op \<in> set ops \<Longrightarrow>
     \<exists>c. op = StreamWrite outPath c"
proof (induction chunks arbitrary: counters r ops)
  case Nil
  then show ?case by simp
next
  case (Cons chunk rest)
  then show ?case
    by (auto split: sum.splits prod.splits)
qed

lemma write_entry_ops:
  "write_entry limits outPath extractedBytes readable = (r, ops) \<Longrightarrow> op \<in> set ops \<Longrightarrow>
     op_path op = outPath \<and> \<not> is_Chmod op"
  by (auto simp: write_entry_def split: zip_data.splits sum.splits prod.splits
      dest!: budget_pipeline_ops)

lemma extractZipEntry_ops:
  assumes "extractZipEntry chmod_ok cwd destDir strip limits extractedBytes entry = (r, ops)"
  shows "ops = [] \<or>
     (\<exists>rel outPath. stripArchivePath (name entry) strip = Some rel \<and>
        validateArchiveEntryPath (name entry) = Inr () \<and>
        validateArchiveEntryPath rel = Inr () \<and>
        resolveCheckedOutPath cwd destDir rel (name entry) = Inr outPath \<and>
        ((dir entry \<and> ops = [Mkdir outPath]) \<or>
         (\<not> dir entry \<and>
          (\<exists>r' wops. write_entry limits outPath extractedBytes (data entry) = (r', wops) \<and>
             (ops = Mkdir (path_dirname outPath) # wops \<or>
              ops = Mkdir (path_dirname outPath) # wops @
                      restore_permissions chmod_ok outPath (unixPermissions entry))))))"
  using assms
  by (auto simp: extractZipEntry_def split: sum.splits option.splits prod.splits if_splits)

lemma extractZipEntry_chmod:
  assumes "Chmod p m ok \<in> set (snd (extractZipEntry chmod_ok cwd destDir strip limits extractedBytes entry))"
  shows "\<not> dir entry \<and> m \<noteq> 0 \<and> ok = chmod_ok p m \<and> (\<exists>x. unixPermissions entry = Some x \<and> m = x AND 511)"
proof -
  obtain r ops where step: "extractZipEntry chmod_ok cwd destDir strip limits extractedBytes entry = (r, ops)"
    by (cases "extractZipEntry chmod_ok cwd destDir strip limits extractedBytes entry")
  with assms have mem: "Chmod p m ok \<in> set ops" by simp
  from extractZipEntry_ops[OF step] mem
  obtain outPath r' wops where nd: "\<not> dir entry"
    and w: "write_entry limits outPath extractedBytes (data entry) = (r', wops)"
    and ops: "ops = Mkdir (path_dirname outPath) # wops \<or>
              ops = Mkdir (path_dirname outPath) # wops @
                      restore_permissions chmod_ok outPath (unixPermissions entry)"
    by auto
  have "Chmod p m ok \<notin> set wops"
    using write_entry_ops[OF w, of "Chmod p m ok"] by auto
  with ops mem have "Chmod p m ok \<in> set (restore_permissions chmod_ok outPath (unixPermissions entry))"
    by auto
  from restore_permissions_mem[OF this] nd show ?thesis by auto
qed

lemma extractZipEntries_chmod:
  "Chmod p m ok \<in> set (snd (extractZipEntries chmod_ok cwd destDir strip limits extractedBytes es)) \<Longrightarrow>
     \<exists>entry \<in> set es. \<not> dir entry \<and> m \<noteq> 0 \<and> ok = chmod_ok p m \<and>
        (\<exists>x. unixPermissions entry = Some x \<and> m = x AND 511)"
proof (induction es arbitrary: extractedBytes)
  case Nil
  then show ?case by simp
next
  case (Cons e es)
  obtain r ops where step: "extractZipEntry chmod_ok cwd destDir strip limits extractedBytes e = (r, ops)"
    by (cases "extractZipEntry chmod_ok cwd destDir strip limits extractedBytes e")
  show ?case
  proof (cases r)
    case (Inl err)
    with step Cons.prems have "Chmod p m ok \<in> set (snd (extractZipEntry chmod_ok cwd destDir strip limits extractedBytes e))"
      by simp
    from extractZipEntry_chmod[OF this] show ?thesis by auto
  next
    case (Inr extractedBytes')
    obtain r' ops' where rest: "extractZipEntries chmod_ok cwd destDir strip limits extractedBytes' es = (r', ops')"
      by (cases "extractZipEntries chmod_ok cwd destDir strip limits extractedBytes' es")
    with Inr step Cons.prems have "Chmod p m ok \<in> set ops \<or> Chmod p m ok \<in> set ops'" by simp
    then show ?thesis
    proof
      assume "Chmod p m ok \<in> set ops"
      with step have "Chmod p m ok \<in> set (snd (extractZipEntry chmod_ok cwd destDir strip limits extractedBytes e))"
        by simp
      from extractZipEntry_chmod[OF this] show ?thesis by auto
    next
      assume "Chmod p m ok \<in> set ops'"
      with rest have "Chmod p m ok \<in> set (snd (extractZipEntries chmod_ok cwd destDir strip limits extractedBytes' es))"
        by simp
      from Cons.IH[OF this] show ?thesis by auto
    qed
  qed
qed

lemma extractZipEntry_no_chmod:
  "unixPermissions entry = None \<or> (\<exists>x. unixPermissions entry = Some x \<and> x AND 511 = 0) \<Longrightarrow>
   op \<in> set (snd (extractZipEntry chmod_ok cwd destDir strip limits extractedBytes entry)) \<Longrightarrow>
   \<not> is_Chmod op"
proof -
  assume a: "unixPermissions entry = None \<or> (\<exists>x. unixPermissions entry = Some x \<and> x AND 511 = 0)"
    and b: "op \<in> set (snd (extractZipEntry chmod_ok cwd destDir strip limits extractedBytes entry))"
  show "\<not> is_Chmod op"
  proof
    assume "is_Chmod op"
    then obtain p m ok where "op = Chmod p m ok" by (cases op) auto
    with b extractZipEntry_chmod[of p m ok chmod_ok cwd destDir strip limits extractedBytes entry] a
    show False by auto
  qed
qed

lemma extractZipEntry_outcome_chmod:
  "fst (extractZipEntry ok1 cwd destDir strip limits extractedBytes entry) =
   fst (extractZipEntry ok2 cwd destDir strip limits extractedBytes entry)"
  by (auto simp: extractZipEntry_def split: sum.splits option.splits prod.splits)

lemma extractZipEntries_outcome_chmod:
  "fst (extractZipEntries ok1 cwd destDir strip limits extractedBytes es) =
   fst (extractZipEntries ok2 cwd destDir strip limits extractedBytes es)"
proof (induction es arbitrary: extractedBytes)
  case Nil
  then show ?case by simp
next
  case (Cons e es)
  obtain r ops where s1: "extractZipEntry ok1 cwd destDir strip limits extractedBytes e = (r, ops)"
    by (cases "extractZipEntry ok1 cwd destDir strip limits extractedBytes e")
  obtain r2 ops2 where s2: "extractZipEntry ok2 cwd destDir strip limits extractedBytes e = (r2, ops2)"
    by (cases "extractZipEntry ok2 cwd destDir strip limits extractedBytes e")
  from extractZipEntry_outcome_chmod[of ok1 cwd destDir strip limits extractedBytes e ok2] s1 s2
  have eq: "r2 = r" by simp
  show ?case
  proof (cases r)
    case (Inl err)
    with s1 s2 eq show ?thesis by simp
  next
    case (Inr x)
    with s1 s2 eq Cons.IH[of x] show ?thesis
      by (cases "extractZipEntries ok1 cwd destDir strip limits x es";
          cases "extractZipEntries ok2 cwd destDir strip limits x es") simp
  qed
qed

lemma extractZip_outcome_chmod:
  "fst (extractZip ok1 cwd destDir stripComponents limits_in archive) =
   fst (extractZip ok2 cwd destDir stripComponents limits_in archive)"
  by (simp add: extractZip_def Let_def extractZipEntries_outcome_chmod)

lemma extractZip_chmod:
  "Chmod p m ok \<in> set (snd (extractZip chmod_ok cwd destDir stripComponents limits_in archive)) \<Longrightarrow>
     \<exists>entry \<in> set (entries archive). \<not> dir entry \<and> m \<noteq> 0 \<and> ok = chmod_ok p m \<and>
        (\<exists>x. unixPermissions entry = Some x \<and> m = x AND 511)"
  by (auto simp: extractZip_def Let_def split: if_splits dest!: extractZipEntries_chmod)

text \<open>
  C10. The permission restore of the zip extractor makes no \<^verbatim>\<open>chmod\<close> call exactly
  when \<^verbatim>\<open>unixPermissions\<close> is not a number or its low 9 bits are all 0; an entry of
  that kind causes no \<^verbatim>\<open>chmod\<close> at all; every \<^verbatim>\<open>chmod\<close> of an extraction carries the
  non-zero masked mode of a file entry; and whether \<^verbatim>\<open>chmod\<close> succeeds or fails, the
  outcome of the extraction is the same.
\<close>

theorem chmod_best_effort:
  "(restore_permissions chmod_ok outPath perms = [] \<longleftrightarrow>
      (perms = None \<or> (\<exists>x. perms = Some x \<and> x AND 511 = 0)))
   \<and> ((unixPermissions entry = None \<or> (\<exists>x. unixPermissions entry = Some x \<and> x AND 511 = 0)) \<longrightarrow>
        (\<forall>op \<in> set (snd (extractZipEntry chmod_ok cwd destDir strip limits extractedBytes entry)).
           \<not> is_Chmod op))
   \<and> (\<forall>p m ok. Chmod p m ok \<in> set (snd (extractZip chmod_ok cwd destDir stripComponents limits_in archive)) \<longrightarrow>
        m \<noteq> 0 \<and> ok = chmod_ok p m \<and>
        (\<exists>e \<in> set (entries archive). \<not> dir e \<and> (\<exists>x. unixPermissions e = Some x \<and> m = x AND 511)))
   \<and> fst (extractZip chmod_ok cwd destDir stripComponents limits_in archive) =
       fst (extractZip chmod_other cwd destDir stripComponents limits_in archive)"
proof (intro conjI allI impI ballI)
  show "restore_permissions chmod_ok outPath perms = [] \<longleftrightarrow>
      (perms = None \<or> (\<exists>x. perms = Some x \<and> x AND 511 = 0))"
    by (rule restore_permissions_Nil)
  show "\<not> is_Chmod op"
    if "unixPermissions entry = None \<or> (\<exists>x. unixPermissions entry = Some x \<and> x AND 511 = 0)"
      and "op \<in> set (snd (extractZipEntry chmod_ok cwd destDir strip limits extractedBytes entry))" for op
    using that by (rule extractZipEntry_no_chmod)
  show "fst (extractZip chmod_ok cwd destDir stripComponents limits_in archive) =
       fst (extractZip chmod_other cwd destDir stripComponents limits_in archive)"
    by (rule extractZip_outcome_chmod)
next
  fix p m ok
  assume "Chmod p m ok \<in> set (snd (extractZip chmod_ok cwd destDir stripComponents limits_in archive))"
  from extractZip_chmod[OF this]
  show "m \<noteq> 0" and "ok = chmod_ok p m"
    and "\<exists>e \<in> set (entries archive). \<not> dir e \<and> (\<exists>x. unixPermissions e = Some x \<and> m = x AND 511)"
    by auto
qed

theorem chmod_best_effort_witness:
  "restore_permissions (\<lambda>p m. True) ''/dest/a'' (Some 32768) = []
   \<and> fst (extractZip (\<lambda>p m. False) ''/'' ''/dest'' None None
        \<lparr>archive_size = 10, entries = [\<lparr>name = ''a'', dir = False, unixPermissions = Some 33188,
              data = NodeBuffer ''hello''\<rparr>]\<rparr>) = Inr ()"
proof -
  let ?arch = "\<lparr>archive_size = 10, entries = [\<lparr>name = ''a'', dir = False, unixPermissions = Some 33188,
              data = NodeBuffer ''hello''\<rparr>]\<rparr>"
  have m: "(32768::int) AND 511 = 0" by code_simp
  have r: "fst (extractZip (\<lambda>p m. True) ''/'' ''/dest'' None None ?arch) = Inr ()" by code_simp
  note t = chmod_best_effort[where chmod_ok = "\<lambda>p m. True" and outPath = "''/dest/a''"
      and perms = "Some 32768" and cwd = "''/''" and destDir = "''/dest''" and stripComponents = None
      and limits_in = None and archive = ?arch and chmod_other = "\<lambda>p m. False"]
  from t m have "restore_permissions (\<lambda>p m. True) ''/dest/a'' (Some 32768) = []" by blast
  moreover from t r have "fst (extractZip (\<lambda>p m. False) ''/'' ''/dest'' None None ?arch) = Inr ()"
    by simp
  ultimately show ?thesis by blast
qed

subsection \<open>Byte limits of the zip extractor\<close>

lemma run_ops_append: "run_ops fs (xs @ ys) = run_ops (run_ops fs xs) ys"
  by (simp add: run_ops_def)

lemma run_ops_unlink_last: "run_ops fs (ops @ [Unlink p]) p = None"
  by (simp add: run_ops_def)

lemma run_ops_Cons: "run_ops fs (x # xs) = run_ops (apply_fs_op fs x) xs"
  by (simp add: run_ops_def)

lemma streamed_bytes_append: "streamed_bytes p (xs @ ys) = streamed_bytes p xs + streamed_bytes p ys"
  by (induction p xs rule: streamed_bytes.induct) auto

lemma budget_pipeline_over:
  "eb \<le> maxEntryBytes limits \<Longrightarrow> xb \<le> maxExtractedBytes limits \<Longrightarrow>
   maxEntryBytes limits < eb + sum_list (map (\<lambda>c. int (length c)) chunks) \<or>
   maxExtractedBytes limits < xb + sum_list (map (\<lambda>c. int (length c)) chunks) \<Longrightarrow>
   \<exists>err ops. budget_pipeline limits outPath (eb, xb) chunks = (Inl err, ops) \<and> classify err = LimitExceeded"
proof (induction chunks arbitrary: eb xb)
  case Nil
  then show ?case by simp
next
  case (Cons chunk rest)
  show ?case
  proof (cases "onChunkBytes limits (eb, xb) (int (length chunk))")
    case (Inl err)
    then have "classify err = LimitExceeded"
      by (auto simp: onChunkBytes_def Let_def split: if_splits)
    with Inl show ?thesis by simp
  next
    case (Inr counters')
    then have c: "counters' = (eb + int (length chunk), xb + int (length chunk))"
      and le: "eb + int (length chunk) \<le> maxEntryBytes limits"
      and lx: "xb + int (length chunk) \<le> maxExtractedBytes limits"
      by (auto simp: onChunkBytes_def Let_def split: if_splits)
    from Cons.prems(3)
    have "maxEntryBytes limits < (eb + int (length chunk)) + sum_list (map (\<lambda>c. int (length c)) rest) \<or>
          maxExtractedBytes limits < (xb + int (length chunk)) + sum_list (map (\<lambda>c. int (length c)) rest)"
      by auto
    from Cons.IH[OF le lx this] Inr c show ?thesis
      by auto
  qed
qed

lemma budget_pipeline_within:
  "budget_pipeline limits outPath (eb, xb) chunks = (r, ops) \<Longrightarrow>
   eb \<le> maxEntryBytes limits \<Longrightarrow> xb \<le> maxExtractedBytes limits \<Longrightarrow>
   eb + streamed_bytes outPath ops \<le> maxEntryBytes limits \<and>
   xb + streamed_bytes outPath ops \<le> maxExtractedBytes limits"
proof (induction chunks arbitrary: eb xb r ops)
  case Nil
  then show ?case by simp
next
  case (Cons chunk rest)
  show ?case
  proof (cases "onChunkBytes limits (eb, xb) (int (length chunk))")
    case (Inl err)
    with Cons.prems show ?thesis by simp
  next
    case (Inr counters')
    then have c: "counters' = (eb + int (length chunk), xb + int (length chunk))"
      and le: "eb + int (length chunk) \<le> maxEntryBytes limits"
      and lx: "xb + int (length chunk) \<le> maxExtractedBytes limits"
      by (auto simp: onChunkBytes_def Let_def split: if_splits)
    obtain r' ops' where rest: "budget_pipeline limits outPath (eb + int (length chunk), xb + int (length chunk)) rest = (r', ops')"
      by (cases "budget_pipeline limits outPath (eb + int (length chunk), xb + int (length chunk)) rest")
    from Cons.IH[OF rest le lx] Cons.prems(1) Inr c rest show ?thesis by auto
  qed
qed

lemma write_entry_over:
  assumes big: "maxEntryBytes limits < data_bytes readable \<or>
                maxExtractedBytes limits < extractedBytes + data_bytes readable"
    and nonneg: "0 \<le> maxEntryBytes limits" and below: "extractedBytes \<le> maxExtractedBytes limits"
  shows "\<exists>err ops. write_entry limits outPath extractedBytes readable = (Inl err, ops)
           \<and> classify err = LimitExceeded \<and> ops \<noteq> [] \<and> last ops = Unlink outPath
           \<and> streamed_bytes outPath ops \<le> maxEntryBytes limits
           \<and> extractedBytes + streamed_bytes outPath ops \<le> maxExtractedBytes limits
           \<and> (\<forall>fs. run_ops fs ops outPath = None)"
proof (cases readable)
  case (NodeBuffer buf)
  with big show ?thesis
    using nonneg below by (auto simp: write_entry_def onChunkBytes_def Let_def run_ops_def)
next
  case (NodeStream chunks)
  with big have "maxEntryBytes limits < 0 + sum_list (map (\<lambda>c. int (length c)) chunks) \<or>
      maxExtractedBytes limits < extractedBytes + sum_list (map (\<lambda>c. int (length c)) chunks)" by simp
  from budget_pipeline_over[OF nonneg below this, of outPath]
  obtain err ops where p: "budget_pipeline limits outPath (0, extractedBytes) chunks = (Inl err, ops)"
    and cl: "classify err = LimitExceeded" by blast
  from budget_pipeline_within[OF p nonneg below]
  have "streamed_bytes outPath ops \<le> maxEntryBytes limits"
    "extractedBytes + streamed_bytes outPath ops \<le> maxExtractedBytes limits"
    by simp_all
  then have "streamed_bytes outPath (CreateWriteStream outPath # ops @ [Unlink outPath]) \<le> maxEntryBytes limits"
    "extractedBytes + streamed_bytes outPath (CreateWriteStream outPath # ops @ [Unlink outPath])
       \<le> maxExtractedBytes limits"
    by (simp_all add: streamed_bytes_append)
  moreover have "\<forall>fs. run_ops fs (CreateWriteStream outPath # ops @ [Unlink outPath]) outPath = None"
    using run_ops_unlink_last[of _ "CreateWriteStream outPath # ops" outPath] by simp
  ultimately show ?thesis using NodeStream p cl by (simp add: write_entry_def)
qed

lemma extractZipEntry_over:
  assumes path_ok: "validateArchiveEntryPath (name entry) = Inr ()"
    and strip: "stripArchivePath (name entry) strip = Some rel"
    and rel_ok: "validateArchiveEntryPath rel = Inr ()"
    and out: "resolveCheckedOutPath cwd destDir rel (name entry) = Inr outPath"
    and is_file: "\<not> dir entry"
    and big: "maxEntryBytes limits < data_bytes (data entry) \<or>
              maxExtractedBytes limits < extractedBytes + data_bytes (data entry)"
    and nonneg: "0 \<le> maxEntryBytes limits" and below: "extractedBytes \<le> maxExtractedBytes limits"
  shows "\<exists>err ops. extractZipEntry chmod_ok cwd destDir strip limits extractedBytes entry = (Inl err, ops)
           \<and> classify err = LimitExceeded \<and> last ops = Unlink outPath
           \<and> streamed_bytes outPath ops \<le> maxEntryBytes limits
           \<and> extractedBytes + streamed_bytes outPath ops \<le> maxExtractedBytes limits
           \<and> (\<forall>fs. run_ops fs ops outPath = None)"
proof -
  from write_entry_over[OF big nonneg below, of outPath]
  obtain err wops where w: "write_entry limits outPath extractedBytes (data entry) = (Inl err, wops)"
    and cl: "classify err = LimitExceeded" and ne: "wops \<noteq> []" and l: "last wops = Unlink outPath"
    and sb: "streamed_bytes outPath wops \<le> maxEntryBytes limits"
    and sx: "extractedBytes + streamed_bytes outPath wops \<le> maxExtractedBytes limits"
    and ro: "\<forall>fs. run_ops fs wops outPath = None"
    by blast
  have "extractZipEntry chmod_ok cwd destDir strip limits extractedBytes entry =
          (Inl err, Mkdir (path_dirname outPath) # wops)"
    using path_ok strip rel_ok out is_file w by (simp add: extractZipEntry_def)
  moreover have "last (Mkdir (path_dirname outPath) # wops) = Unlink outPath" using ne l by simp
  moreover have "streamed_bytes outPath (Mkdir (path_dirname outPath) # wops) \<le> maxEntryBytes limits"
    using sb by simp
  moreover have "extractedBytes + streamed_bytes outPath (Mkdir (path_dirname outPath) # wops)
      \<le> maxExtractedBytes limits"
    using sx by simp
  moreover have "\<forall>fs. run_ops fs (Mkdir (path_dirname outPath) # wops) outPath = None"
    using ro by (simp add: run_ops_Cons)
  ultimately show ?thesis using cl by blast
qed

lemma resolved_limits_pos:
  "0 < maxArchiveBytes (resolveExtractLimits limits) \<and> 0 < maxEntries (resolveExtractLimits limits)
   \<and> 0 < maxExtractedBytes (resolveExtractLimits limits) \<and> 0 < maxEntryBytes (resolveExtractLimits limits)"
  by (simp add: resolveExtractLimits_def clampLimit_or_else floor_or_default_pos)

text \<open>
  C6. In the zip extractor the per-entry and the total byte limit are checked on
  every chunk before the chunk reaches the write stream. For an archive of a single
  file entry whose data exceeds \<^verbatim>\<open>maxEntryBytes\<close> (1001 bytes against a limit of 1000
  in the witness) or \<^verbatim>\<open>maxExtractedBytes\<close>, the extraction fails with a LimitExceeded
  error, the bytes handed to the write stream never exceed either limit, the last
  filesystem call is the \<^verbatim>\<open>unlink\<close> of the output file, and whatever the filesystem
  held before, no file is left at the output path.
\<close>

theorem zip_entry_limit_fail_fast:
  assumes size_ok: "archive_size archive \<le> maxArchiveBytes (resolveExtractLimits limits_in)"
    and single: "entries archive = [entry]"
    and path_ok: "validateArchiveEntryPath (name entry) = Inr ()"
    and strip: "stripArchivePath (name entry) (max 0 (or_else stripComponents 0)) = Some rel"
    and rel_ok: "validateArchiveEntryPath rel = Inr ()"
    and out: "resolveCheckedOutPath cwd destDir rel (name entry) = Inr outPath"
    and is_file: "\<not> dir entry"
    and big: "maxEntryBytes (resolveExtractLimits limits_in) < data_bytes (data entry) \<or>
              maxExtractedBytes (resolveExtractLimits limits_in) < data_bytes (data entry)"
  shows "\<exists>err ops. extractZip chmod_ok cwd destDir stripComponents limits_in archive = (Inl err, ops)
           \<and> classify err = LimitExceeded \<and> last ops = Unlink outPath
           \<and> streamed_bytes outPath ops \<le> maxEntryBytes (resolveExtractLimits limits_in)
           \<and> streamed_bytes outPath ops \<le> maxExtractedBytes (resolveExtractLimits limits_in)
           \<and> (\<forall>fs. run_ops fs ops outPath = None)"
proof -
  let ?limits = "resolveExtractLimits limits_in"
  have pos: "0 \<le> maxEntryBytes ?limits" "1 \<le> maxEntries ?limits" "0 \<le> maxExtractedBytes ?limits"
    using resolved_limits_pos[of limits_in] by auto
  from big have big0: "maxEntryBytes ?limits < data_bytes (data entry) \<or>
              maxExtractedBytes ?limits < 0 + data_bytes (data entry)" by simp
  from extractZipEntry_over[OF path_ok strip rel_ok out is_file big0 pos(1) pos(3), of chmod_ok]
  obtain err ops where
    step: "extractZipEntry chmod_ok cwd destDir (max 0 (or_else stripComponents 0)) ?limits 0 entry = (Inl err, ops)"
    and rest: "classify err = LimitExceeded" "last ops = Unlink outPath"
      "streamed_bytes outPath ops \<le> maxEntryBytes ?limits"
      "0 + streamed_bytes outPath ops \<le> maxExtractedBytes ?limits"
      "\<forall>fs. run_ops fs ops outPath = None"
    by blast
  have "extractZip chmod_ok cwd destDir stripComponents limits_in archive = (Inl err, ops)"
    using size_ok single pos(2) step by (simp add: extractZip_def Let_def)
  with rest show ?thesis by auto
qed

theorem zip_entry_limit_fail_fast_witness:
  "\<exists>err ops. extractZip (\<lambda>p m. True) ''/'' ''/dest'' None
        (Some \<lparr>maxArchiveBytes = None, maxEntries = None, maxExtractedBytes = None,
               maxEntryBytes = Some (Num 1000)\<rparr>)
        \<lparr>archive_size = 2048, entries = [\<lparr>name = ''big.bin'', dir = False, unixPermissions = Some 420,
              data = NodeStream [replicate 600 CHR ''x'', replicate 401 CHR ''x'']\<rparr>]\<rparr> = (Inl err, ops)
      \<and> classify err = LimitExceeded \<and> last ops = Unlink ''/dest/big.bin''
      \<and> streamed_bytes ''/dest/big.bin'' ops \<le> 1000
      \<and> streamed_bytes ''/dest/big.bin'' ops \<le> 536870912
      \<and> (\<forall>fs. run_ops fs ops ''/dest/big.bin'' = None)"
proof -
  let ?lim = "Some \<lparr>maxArchiveBytes = None, maxEntries = None, maxExtractedBytes = None,
               maxEntryBytes = Some (Num 1000)\<rparr>"
  let ?e = "\<lparr>name = ''big.bin'', dir = False, unixPermissions = Some 420,
              data = NodeStream [replicate 600 CHR ''x'', replicate 401 CHR ''x'']\<rparr>"
  have l1: "maxEntryBytes (resolveExtractLimits ?lim) = 1000"
    by (simp add: resolveExtractLimits_def clampLimit_def optional_field_def or_else_def)
  have l2: "maxArchiveBytes (resolveExtractLimits ?lim) = 268435456"
    by (simp add: resolveExtractLimits_def clampLimit_def optional_field_def or_else_def)
  have l3: "maxExtractedBytes (resolveExtractLimits ?lim) = 536870912"
    by (simp add: resolveExtractLimits_def clampLimit_def optional_field_def or_else_def)
  have a: "validateArchiveEntryPath ''big.bin'' = Inr ()" by code_simp
  have b: "stripArchivePath ''big.bin'' 0 = Some ''big.bin''" by code_simp
  have c: "resolveCheckedOutPath ''/'' ''/dest'' ''big.bin'' ''big.bin'' = Inr ''/dest/big.bin''" by code_simp
  from zip_entry_limit_fail_fast[of "\<lparr>archive_size = 2048, entries = [?e]\<rparr>" ?lim ?e None "''big.bin''"
      "''/''" "''/dest''" "''/dest/big.bin''" "\<lambda>p m. True"]
  show ?thesis
    by (simp add: l1 l2 l3 a b c or_else_def)
qed

subsection \<open>The tar hook\<close>

lemma resolveCheckedOutPath_Inr:
  "resolveCheckedOutPath cwd destDir rel orig = Inr outPath \<Longrightarrow>
     outPath = path_resolve cwd [destDir, rel] \<and> startsWith outPath (resolveSafeBaseDir cwd destDir)"
  by (auto simp: resolveCheckedOutPath_def Let_def split: if_splits)

lemma resolveCheckedOutPath_Inl:
  "resolveCheckedOutPath cwd destDir rel orig = Inl err \<Longrightarrow>
     err = EscapesDestination orig \<and>
     \<not> startsWith (path_resolve cwd [destDir, rel]) (resolveSafeBaseDir cwd destDir)"
  by (auto simp: resolveCheckedOutPath_def Let_def split: if_splits)

lemma onReadEntry_Passed:
  assumes "onReadEntry cwd destDir strip limits (c, b) entry = Passed outPath c' b'"
  shows "\<exists>rel. validateArchiveEntryPath (entry_path entry) = Inr () \<and>
           stripArchivePath (entry_path entry) strip = Some rel \<and>
           validateArchiveEntryPath rel = Inr () \<and>
           resolveCheckedOutPath cwd destDir rel (entry_path entry) = Inr outPath \<and>
           \<not> is_link_type (entry_type entry) \<and>
           c' = c + 1 \<and> c' \<le> maxEntries limits \<and>
           archiveEntrySize entry \<le> maxEntryBytes limits \<and>
           b' = b + archiveEntrySize entry \<and> b' \<le> maxExtractedBytes limits"
  using assms
  by (auto simp: onReadEntry_def Let_def split: sum.splits option.splits if_splits)

lemma onReadEntry_link:
  "is_link_type (entry_type entry) \<Longrightarrow> passes_path_checks cwd destDir strip entry \<Longrightarrow>
     onReadEntry cwd destDir strip limits counters entry = Aborted (LinkEntry (entry_path entry))"
  by (cases counters)
    (auto simp: onReadEntry_def passes_path_checks_def Let_def split: sum.splits option.splits)


lemma onReadEntry_skipped:
  "validateArchiveEntryPath (entry_path entry) = Inr () \<Longrightarrow>
   stripArchivePath (entry_path entry) strip = None \<Longrightarrow>
     onReadEntry cwd destDir strip limits counters entry = Skipped"
  by (cases counters) (simp add: onReadEntry_def)

lemma onReadEntry_link_never_passed:
  "is_link_type (entry_type entry) \<Longrightarrow>
     onReadEntry cwd destDir strip limits counters entry \<noteq> Passed outPath c' b'"
  by (cases counters) (auto dest: onReadEntry_Passed)

lemma tar_x_unpacked:
  "(entry, outPath) \<in> set (snd (tar_x (onReadEntry cwd destDir strip limits) counters es)) \<Longrightarrow>
     entry \<in> set es \<and>
     (\<exists>c b c' b'. onReadEntry cwd destDir strip limits (c, b) entry = Passed outPath c' b')"
proof (induction es arbitrary: counters)
  case Nil
  then show ?case by simp
next
  case (Cons e es)
  show ?case
  proof (cases "onReadEntry cwd destDir strip limits counters e")
    case (Aborted err)
    with Cons.prems show ?thesis by simp
  next
    case Skipped
    with Cons.prems Cons.IH[of counters] show ?thesis by auto
  next
    case (Passed out c' b')
    obtain r acc where rest: "tar_x (onReadEntry cwd destDir strip limits) (c', b') es = (r, acc)"
      by (cases "tar_x (onReadEntry cwd destDir strip limits) (c', b') es")
    with Passed Cons.prems have "(entry, outPath) = (e, out) \<or> (entry, outPath) \<in> set acc" by simp
    then show ?thesis
    proof
      assume "(entry, outPath) = (e, out)"
      with Passed show ?thesis by (cases counters) auto
    next
      assume "(entry, outPath) \<in> set acc"
      with rest Cons.IH[of "(c', b')"] show ?thesis by auto
    qed
  qed
qed

subsection \<open>The entry count\<close>

lemma extractTar_unpacked:
  assumes "(entry, outPath) \<in> set (snd (extractTar cwd destDir stripComponents limits_in archive))"
  shows "entry \<in> set archive \<and> \<not> is_link_type (entry_type entry) \<and>
     (\<exists>rel. stripArchivePath (entry_path entry) (max 0 (or_else stripComponents 0)) = Some rel \<and>
        validateArchiveEntryPath rel = Inr () \<and>
        outPath = path_resolve cwd [destDir, rel] \<and>
        startsWith outPath (resolveSafeBaseDir cwd destDir))"
proof -
  from assms tar_x_unpacked[of entry outPath cwd destDir "max 0 (or_else stripComponents 0)"
      "resolveExtractLimits limits_in" "(0, 0)" archive]
  obtain c b c' b' where mem: "entry \<in> set archive"
    and p: "onReadEntry cwd destDir (max 0 (or_else stripComponents 0)) (resolveExtractLimits limits_in)
              (c, b) entry = Passed outPath c' b'"
    by (auto simp: extractTar_def Let_def)
  from onReadEntry_Passed[OF p] mem show ?thesis
    by (auto dest: resolveCheckedOutPath_Inr)
qed






subsection \<open>Entry types\<close>

lemma extractZipEntry_ignores_permissions:
  "fst (extractZipEntry chmod_ok cwd destDir strip limits extractedBytes (zentry\<lparr>unixPermissions := perms\<rparr>)) =
   fst (extractZipEntry chmod_ok cwd destDir strip limits extractedBytes zentry)"
  by (auto simp: extractZipEntry_def split: sum.splits option.splits prod.splits)

text \<open>
  C3. The hook tests the declared type of a tar entry only after it has returned for
  a path that strips to nothing. The symbolic link entry \<^verbatim>\<open>pkg\<close> has a valid path;
  under \<^verbatim>\<open>stripComponents = 1\<close> its path strips to nothing and the hook returns
  without an error and without an abort, where the same entry without stripping
  makes the hook signal an abort with the error \<^verbatim>\<open>tar entry is a link\<close>.
\<close>

theorem link_entry_skipped_before_type_test:
  "is_link_type (entry_type (symlink_entry ''pkg''))
   \<and> validateArchiveEntryPath ''pkg'' = Inr ()
   \<and> stripArchivePath ''pkg'' 1 = None
   \<and> onReadEntry ''/'' ''/dest'' 1 (resolveExtractLimits None) (0, 0) (symlink_entry ''pkg'') = Skipped
   \<and> onReadEntry ''/'' ''/dest'' 0 (resolveExtractLimits None) (0, 0) (symlink_entry ''pkg'')
        = Aborted (LinkEntry ''pkg'')"
proof -
  have l: "is_link_type (entry_type (symlink_entry ''pkg''))"
    by (simp add: symlink_entry_def is_link_type_def)
  have v: "validateArchiveEntryPath ''pkg'' = Inr ()" by code_simp
  have s: "stripArchivePath ''pkg'' 1 = None" by code_simp
  have "onReadEntry ''/'' ''/dest'' 1 (resolveExtractLimits None) (0, 0) (symlink_entry ''pkg'') = Skipped"
    using v s by (simp add: onReadEntry_skipped symlink_entry_def)
  moreover have "passes_path_checks ''/'' ''/dest'' 0 (symlink_entry ''pkg'')" by code_simp
  then have "onReadEntry ''/'' ''/dest'' 0 (resolveExtractLimits None) (0, 0) (symlink_entry ''pkg'')
        = Aborted (LinkEntry ''pkg'')"
    using l onReadEntry_link[of "symlink_entry ''pkg''" "''/''" "''/dest''" 0] by (simp add: symlink_entry_def)
  ultimately show ?thesis using l v s by blast
qed

subsection \<open>Normalized paths\<close>

lemma normalize_step_clean:
  "seg \<noteq> [] \<Longrightarrow> seg \<noteq> ''.'' \<Longrightarrow> seg \<noteq> ''..'' \<Longrightarrow> normalize_step a st seg = seg # st"
  by (simp add: normalize_step_def)

lemma foldl_normalize_step_clean:
  "\<forall>x \<in> set zs. x \<noteq> [] \<and> x \<noteq> ''.'' \<and> x \<noteq> ''..'' \<Longrightarrow>
     foldl (normalize_step a) st zs = rev zs @ st"
  by (induction zs arbitrary: st) (simp_all add: normalize_step_clean)

lemma foldl_normalize_step_dots:
  "foldl (normalize_step True) (replicate j ''..'') (replicate k ''..'') = replicate (j + k) ''..''"
proof (induction k arbitrary: j)
  case 0
  then show ?case by simp
next
  case (Suc k)
  have "normalize_step True (replicate j ''..'') ''..'' = replicate (Suc j) ''..''"
    by (cases j) (simp_all add: normalize_step_def)
  with Suc[of "Suc j"] show ?case by simp
qed

lemma normalize_step_shape:
  assumes "st = ys @ replicate k ''..''" and "''..'' \<notin> set ys"
  shows "\<exists>ys' k'. normalize_step True st seg = ys' @ replicate k' ''..'' \<and> ''..'' \<notin> set ys'"
proof (cases "seg = [] \<or> seg = ''.''")
  case True
  with assms show ?thesis by (auto simp: normalize_step_def)
next
  case False
  note nf = False
  show ?thesis
  proof (cases "seg = ''..''")
    case False
    with nf have "normalize_step True st seg = (seg # ys) @ replicate k ''..''"
      using assms by (simp add: normalize_step_def)
    moreover have "''..'' \<notin> set (seg # ys)" using False assms by simp
    ultimately show ?thesis by blast
  next
    case True
    show ?thesis
    proof (cases ys)
      case Nil
      with assms have "st = replicate k ''..''" by simp
      then have "normalize_step True st seg = [] @ replicate (Suc k) ''..''"
        using True by (cases k) (simp_all add: normalize_step_def)
      then show ?thesis by (metis empty_iff list.set(1))
    next
      case (Cons y ys')
      with assms have "y \<noteq> ''..''" by auto
      with Cons assms True have "normalize_step True st seg = ys' @ replicate k ''..''"
        by (simp add: normalize_step_def)
      moreover have "''..'' \<notin> set ys'" using Cons assms by simp
      ultimately show ?thesis by blast
    qed
  qed
qed

lemma foldl_normalize_step_shape:
  "st = ys @ replicate k ''..'' \<Longrightarrow> ''..'' \<notin> set ys \<Longrightarrow>
   \<exists>ys' k'. foldl (normalize_step True) st segs = ys' @ replicate k' ''..'' \<and> ''..'' \<notin> set ys'"
proof (induction segs arbitrary: st ys k)
  case Nil
  then show ?case by auto
next
  case (Cons seg segs)
  from normalize_step_shape[OF Cons.prems, of seg]
  obtain ys' k' where "normalize_step True st seg = ys' @ replicate k' ''..''" "''..'' \<notin> set ys'"
    by blast
  from Cons.IH[OF this] show ?case by simp
qed

lemma normalize_segments_shape:
  "\<exists>zs k. normalize_segments True segs = replicate k ''..'' @ zs \<and> ''..'' \<notin> set zs"
proof -
  from foldl_normalize_step_shape[of "[]" "[]" 0 segs]
  obtain ys k where "foldl (normalize_step True) [] segs = ys @ replicate k ''..''" "''..'' \<notin> set ys"
    by auto
  then have "normalize_segments True segs = replicate k ''..'' @ rev ys \<and> ''..'' \<notin> set (rev ys)"
    by (simp add: normalize_segments_def)
  then show ?thesis by blast
qed

lemma normalize_segments_idem:
  "normalize_segments True (normalize_segments True segs) = normalize_segments True segs"
proof -
  obtain zs k where sh: "normalize_segments True segs = replicate k ''..'' @ zs" and nd: "''..'' \<notin> set zs"
    using normalize_segments_shape by blast
  have "\<forall>x \<in> set zs. x \<in> set (normalize_segments True segs)" using sh by simp
  then have cl: "\<forall>x \<in> set zs. x \<noteq> [] \<and> x \<noteq> ''.'' \<and> x \<noteq> ''..''"
    using nd normalize_segments_mem by metis
  have "foldl (normalize_step True) [] (replicate k ''..'' @ zs) =
        foldl (normalize_step True) (replicate k ''..'') zs"
    using foldl_normalize_step_dots[of 0 k] by simp
  also have "\<dots> = rev zs @ replicate k ''..''"
    using cl by (rule foldl_normalize_step_clean)
  finally have "normalize_segments True (replicate k ''..'' @ zs) = replicate k ''..'' @ zs"
    unfolding normalize_segments_def by simp
  with sh show ?thesis by simp
qed

lemma split_on_subset_all: "\<forall>seg \<in> set (split_on c s). set seg \<subseteq> set s"
proof (induction s)
  case Nil
  then show ?case by simp
next
  case (Cons a s)
  show ?case
  proof (cases "a = c")
    case True
    with Cons show ?thesis by auto
  next
    case False
    obtain y ys where sp: "split_on c s = y # ys"
      using split_on_nonempty[of c s] by (cases "split_on c s") auto
    with Cons have "set y \<subseteq> set s" "\<forall>seg \<in> set ys. set seg \<subseteq> set s" by auto
    with False sp show ?thesis by auto
  qed
qed

lemma split_on_subset: "x \<in> set (split_on c s) \<Longrightarrow> set x \<subseteq> set s"
  using split_on_subset_all by blast

lemma set_join_with: "set (join_with c segs) \<subseteq> insert c (\<Union> (set ` set segs))"
  by (induction c segs rule: join_with.induct) auto

lemma normalizeArchivePath_no_backslash: "backslash \<notin> set (normalizeArchivePath p)"
  by (auto simp: normalizeArchivePath_def backslash_def slash_def)

lemma normalizeArchivePath_id: "backslash \<notin> set s \<Longrightarrow> normalizeArchivePath s = s"
  by (induction s) (auto simp: normalizeArchivePath_def)

lemma join_with_Cons_dots:
  "join_with slash (''..'' # segs) = ''..'' \<or> startsWith (join_with slash (''..'' # segs)) ''../''"
  by (cases segs) (auto simp: startsWith_def slash_def)

lemma stripped_valid_segments:
  assumes s: "stripArchivePath p n = Some rel" and v: "validateArchiveEntryPath rel = Inr ()"
  shows "\<exists>kept. kept \<noteq> [] \<and> rel = join_with slash kept \<and>
           (\<forall>x \<in> set kept. x \<noteq> [] \<and> x \<noteq> ''.'' \<and> x \<noteq> ''..'' \<and> slash \<notin> set x)"
proof -
  let ?rest = "drop (nat n) (archive_parts (normalizeArchivePath p))"
  let ?kept = "normalize_segments True ?rest"
  from s have ne: "?kept \<noteq> []" and rel: "rel = join_with slash ?kept"
    by (auto simp: stripArchivePath_segments Let_def split: if_splits)
  have rest_ok: "\<forall>x \<in> set ?rest. x \<noteq> [] \<and> x \<noteq> ''.'' \<and> slash \<notin> set x"
    using archive_parts_mem by (meson in_set_dropD)
  have kept_ok: "\<forall>x \<in> set ?kept. x \<noteq> [] \<and> x \<noteq> ''.'' \<and> slash \<notin> set x"
    using rest_ok normalize_segments_mem by blast
  have rest_bs: "\<forall>x \<in> set ?rest. backslash \<notin> set x"
  proof
    fix x assume "x \<in> set ?rest"
    then have "x \<in> set (split_on slash (normalizeArchivePath p))"
      by (auto simp: archive_parts_def dest: in_set_dropD)
    from split_on_subset[OF this] normalizeArchivePath_no_backslash[of p]
    show "backslash \<notin> set x" by auto
  qed
  have "\<forall>x \<in> set ?kept. backslash \<notin> set x"
    using rest_bs normalize_segments_mem by blast
  then have "backslash \<notin> set rel"
    using set_join_with[of slash ?kept] unfolding rel by (auto simp: backslash_def slash_def)
  then have nap: "normalizeArchivePath rel = rel" by (rule normalizeArchivePath_id)
  have norm: "posix_normalize rel = rel"
    unfolding rel using ne by (simp add: posix_normalize_join_relative[OF kept_ok] normalize_segments_idem)
  from join_with_not_dot[OF kept_ok] join_with_Nil_iff[of ?kept slash] kept_ok ne
  have nontrivial: "rel \<noteq> [] \<and> rel \<noteq> ''.'' \<and> rel \<noteq> ''./''" unfolding rel by auto
  from v nontrivial nap norm have noesc: "rel \<noteq> ''..'' \<and> \<not> startsWith rel ''../''"
    by (auto simp: validateArchiveEntryPath_def Let_def split: if_splits)
  obtain zs k where sh: "?kept = replicate k ''..'' @ zs" and nd: "''..'' \<notin> set zs"
    using normalize_segments_shape by blast
  have "k = 0"
  proof (rule ccontr)
    assume "k \<noteq> 0"
    then obtain k' where "k = Suc k'" by (cases k) auto
    with sh have "?kept = ''..'' # (replicate k' ''..'' @ zs)" by simp
    with join_with_Cons_dots[of "replicate k' ''..'' @ zs"] noesc rel show False by simp
  qed
  with sh nd have "''..'' \<notin> set ?kept" by simp
  with kept_ok ne rel show ?thesis by blast
qed

lemma resolve_args_acc:
  "resolve_args ps acc = (fst (resolve_args ps []) @ acc, snd (resolve_args ps []))"
proof (induction ps arbitrary: acc)
  case Nil
  then show ?case by simp
next
  case (Cons p ps)
  show ?case
  proof (cases "p = [] \<or> posix_isAbsolute p")
    case True
    then show ?thesis using Cons.IH[of acc] by auto
  next
    case False
    with Cons.IH[of "p @ ''/'' @ acc"] Cons.IH[of "p @ ''/''"] show ?thesis by simp
  qed
qed

lemma resolve_args_absolute_cwd:
  assumes "posix_isAbsolute cwd"
  shows "\<exists>pre. resolve_args [destDir, cwd] [] = (pre @ [slash], True)"
proof -
  from assms have "cwd \<noteq> []" by (auto simp: posix_isAbsolute_def)
  with assms show ?thesis
    by (cases "destDir = []"; cases "posix_isAbsolute destDir") (auto simp: slash_def)
qed

lemma normalize_segments_append_clean:
  assumes "\<forall>x \<in> set zs. x \<noteq> [] \<and> x \<noteq> ''.'' \<and> x \<noteq> ''..''"
  shows "normalize_segments a (segs @ zs @ [[]]) = normalize_segments a segs @ zs"
  using foldl_normalize_step_clean[OF assms, of a "foldl (normalize_step a) [] segs"]
  by (simp add: normalize_segments_def normalize_step_def)

lemma normalize_segments_append_empty:
  "normalize_segments a (segs @ [[]]) = normalize_segments a segs"
  by (simp add: normalize_segments_def normalize_step_def)

lemma join_with_append:
  "xs \<noteq> [] \<Longrightarrow> ys \<noteq> [] \<Longrightarrow> join_with c (xs @ ys) = join_with c xs @ c # join_with c ys"
proof (induction c xs rule: join_with.induct)
  case (1 c)
  then show ?case by simp
next
  case (2 c x)
  then show ?case by (cases ys) auto
next
  case (3 c x y ys)
  then show ?case by simp
qed

lemma endsWith_slash: "endsWith s ''/'' \<longleftrightarrow> s \<noteq> [] \<and> last s = slash"
  by (cases s rule: rev_cases) (auto simp: endsWith_def slash_def)

text \<open>
  Lexical validation implies containment: where the working directory is absolute,
  the candidate output path of a stripped and validated entry path is the safe base
  followed by that path.
\<close>

lemma validated_path_is_contained:
  assumes abs: "posix_isAbsolute cwd"
    and s: "stripArchivePath p n = Some rel"
    and v: "validateArchiveEntryPath rel = Inr ()"
  shows "path_resolve cwd [destDir, rel] = resolveSafeBaseDir cwd destDir @ rel \<and> rel \<noteq> []"
proof -
  from stripped_valid_segments[OF s v] obtain kept where ne: "kept \<noteq> []"
    and rel: "rel = join_with slash kept"
    and ok: "\<forall>x \<in> set kept. x \<noteq> [] \<and> x \<noteq> ''.'' \<and> x \<noteq> ''..'' \<and> slash \<notin> set x"
    by blast
  from ne ok have rel_ne: "rel \<noteq> []" unfolding rel by (simp add: join_with_Nil_iff)
  from ne ok have "hd kept \<noteq> []" "slash \<notin> set (hd kept)" by auto
  then have "hd (hd kept) \<noteq> slash" by (metis hd_in_set)
  with ne \<open>hd kept \<noteq> []\<close> have "hd rel \<noteq> slash" unfolding rel by (simp add: hd_join_with)
  with rel_ne have rel_rel: "\<not> posix_isAbsolute rel"
    by (auto simp: posix_isAbsolute_def split: list.splits)
  from resolve_args_absolute_cwd[OF abs, of destDir] obtain pre where
    pre: "resolve_args [destDir, cwd] [] = (pre @ [slash], True)" by blast
  let ?N = "normalize_segments False (split_on slash pre)"
  have split_kept: "split_on slash rel = kept"
    unfolding rel using ne ok by (simp add: split_join_with)
  have one: "path_resolve cwd [destDir] = ''/'' @ join_with slash ?N"
    using pre split_on_append[of slash pre "[]"]
    by (simp add: path_resolve_def normalizeString_def normalize_segments_append_empty)
  have "resolve_args [rel, destDir, cwd] [] = (pre @ [slash] @ rel @ ''/'', True)"
    using rel_ne rel_rel pre resolve_args_acc[of "[destDir, cwd]" "rel @ ''/''"] by simp
  moreover have "split_on slash (pre @ [slash] @ rel @ ''/'') = split_on slash pre @ kept @ [[]]"
    using split_on_append[of slash pre "rel @ ''/''"] split_on_append[of slash rel "[]"] split_kept
    by (simp add: slash_def)
  moreover have "normalize_segments False (split_on slash pre @ kept @ [[]]) = ?N @ kept"
    using ok by (intro normalize_segments_append_clean) blast
  ultimately have two: "path_resolve cwd [destDir, rel] = ''/'' @ join_with slash (?N @ kept)"
    by (simp add: path_resolve_def normalizeString_def)
  show ?thesis
  proof (cases "?N = []")
    case True
    with one two rel rel_ne show ?thesis
      by (simp add: resolveSafeBaseDir_def endsWith_slash slash_def)
  next
    case False
    have Nok: "\<forall>x \<in> set ?N. x \<noteq> [] \<and> slash \<notin> set x"
      using normalize_segments_mem split_on_no_sep by blast
    with False have "last ?N \<noteq> []" "slash \<notin> set (last ?N)" by auto
    then have "last (last ?N) \<noteq> slash" by (metis last_in_set)
    with False \<open>last ?N \<noteq> []\<close> have "last (join_with slash ?N) \<noteq> slash" "join_with slash ?N \<noteq> []"
      by (simp_all add: last_join_with join_with_last_nonempty)
    then have "\<not> endsWith (''/'' @ join_with slash ?N) ''/''"
      by (simp add: endsWith_slash)
    with one have "resolveSafeBaseDir cwd destDir = ''/'' @ join_with slash ?N @ ''/''"
      by (simp add: resolveSafeBaseDir_def)
    moreover have "join_with slash (?N @ kept) = join_with slash ?N @ slash # join_with slash kept"
      using False ne by (rule join_with_append)
    ultimately show ?thesis using two rel rel_ne by (simp add: slash_def)
  qed
qed

lemma path_dirname_root_child:
  assumes "x \<noteq> []" and "slash \<notin> set x"
  shows "path_dirname (slash # x) = ''/''"
proof -
  from assms have "hd (rev x) \<noteq> slash" by (metis hd_rev last_in_set)
  with assms have a: "dropWhile (\<lambda>c. c = slash) (rev x) = rev x" by (cases "rev x") auto
  from assms have b: "dropWhile (\<lambda>c. c \<noteq> slash) (rev x) = []" by auto
  show ?thesis using assms by (auto simp: path_dirname_def a b Let_def)
qed

lemma path_dirname_child:
  assumes "x \<noteq> []" and "slash \<notin> set x" and "b \<noteq> []"
  shows "path_dirname (slash # b @ slash # x) = slash # b"
proof -
  from assms have "hd (rev x) \<noteq> slash" by (metis hd_rev last_in_set)
  with assms have a: "dropWhile (\<lambda>c. c = slash) (rev x @ slash # rev b) = rev x @ slash # rev b"
    by (cases "rev x") auto
  from assms have b: "dropWhile (\<lambda>c. c \<noteq> slash) (rev x @ slash # rev b) = slash # rev b"
    by (auto simp: dropWhile_append)
  from assms show ?thesis by (auto simp: path_dirname_def a b Let_def)
qed

lemma safe_base_cases:
  assumes abs: "posix_isAbsolute cwd"
  shows "(path_resolve cwd [destDir] = ''/'' \<and> resolveSafeBaseDir cwd destDir = ''/'') \<or>
         (\<exists>b. b \<noteq> [] \<and> path_resolve cwd [destDir] = slash # b \<and>
              resolveSafeBaseDir cwd destDir = slash # b @ [slash])"
proof -
  from resolve_args_absolute_cwd[OF abs, of destDir] obtain pre where
    pre: "resolve_args [destDir, cwd] [] = (pre @ [slash], True)" by blast
  let ?N = "normalize_segments False (split_on slash pre)"
  have one: "path_resolve cwd [destDir] = ''/'' @ join_with slash ?N"
    using pre split_on_append[of slash pre "[]"]
    by (simp add: path_resolve_def normalizeString_def normalize_segments_append_empty)
  show ?thesis
  proof (cases "?N = []")
    case True
    with one show ?thesis by (simp add: resolveSafeBaseDir_def endsWith_slash slash_def)
  next
    case False
    have Nok: "\<forall>x \<in> set ?N. x \<noteq> [] \<and> slash \<notin> set x"
      using normalize_segments_mem split_on_no_sep by blast
    with False have "last ?N \<noteq> []" "slash \<notin> set (last ?N)" by auto
    then have "last (last ?N) \<noteq> slash" by (metis last_in_set)
    with False \<open>last ?N \<noteq> []\<close> have l: "last (join_with slash ?N) \<noteq> slash" "join_with slash ?N \<noteq> []"
      by (simp_all add: last_join_with join_with_last_nonempty)
    then have "\<not> endsWith (''/'' @ join_with slash ?N) ''/''"
      by (simp add: endsWith_slash)
    with one have "resolveSafeBaseDir cwd destDir = slash # join_with slash ?N @ [slash]"
      by (simp add: resolveSafeBaseDir_def slash_def)
    with one l show ?thesis by (auto simp: slash_def)
  qed
qed

lemma dirname_contained:
  assumes abs: "posix_isAbsolute cwd"
    and s: "stripArchivePath p n = Some rel"
    and v: "validateArchiveEntryPath rel = Inr ()"
  shows "path_dirname (path_resolve cwd [destDir, rel]) = path_resolve cwd [destDir] \<or>
         (\<exists>q. q \<noteq> [] \<and> path_dirname (path_resolve cwd [destDir, rel]) = resolveSafeBaseDir cwd destDir @ q)"
proof -
  from stripped_valid_segments[OF s v] obtain kept where ne: "kept \<noteq> []"
    and rel: "rel = join_with slash kept"
    and ok: "\<forall>x \<in> set kept. x \<noteq> [] \<and> x \<noteq> ''.'' \<and> x \<noteq> ''..'' \<and> slash \<notin> set x"
    by blast
  from validated_path_is_contained[OF abs s v, of destDir]
  have out: "path_resolve cwd [destDir, rel] = resolveSafeBaseDir cwd destDir @ rel" by simp
  from ne obtain xs x where kept: "kept = xs @ [x]" by (cases kept rule: rev_cases) auto
  with ok have x: "x \<noteq> []" "slash \<notin> set x" by auto
  show ?thesis
  proof (cases "xs = []")
    case True
    with kept rel have r: "rel = x" by simp
    from safe_base_cases[OF abs, of destDir] show ?thesis
    proof
      assume "path_resolve cwd [destDir] = ''/'' \<and> resolveSafeBaseDir cwd destDir = ''/''"
      with out r path_dirname_root_child[OF x] show ?thesis by (simp add: slash_def)
    next
      assume "\<exists>b. b \<noteq> [] \<and> path_resolve cwd [destDir] = slash # b \<and>
              resolveSafeBaseDir cwd destDir = slash # b @ [slash]"
      then obtain b where b: "b \<noteq> []" "path_resolve cwd [destDir] = slash # b"
        "resolveSafeBaseDir cwd destDir = slash # b @ [slash]" by blast
      with out r path_dirname_child[OF x b(1)] show ?thesis by simp
    qed
  next
    case False
    from kept ok have xs_ok: "\<forall>y \<in> set xs. y \<noteq> []" by auto
    with False have jne: "join_with slash xs \<noteq> []" by (simp add: join_with_Nil_iff)
    from False kept rel have r: "rel = join_with slash xs @ slash # x"
      using join_with_append[of xs "[x]" slash] by simp
    from safe_base_cases[OF abs, of destDir] show ?thesis
    proof
      assume c: "path_resolve cwd [destDir] = ''/'' \<and> resolveSafeBaseDir cwd destDir = ''/''"
      with out r have "path_resolve cwd [destDir, rel] = slash # join_with slash xs @ slash # x"
        by (simp add: slash_def)
      with path_dirname_child[OF x jne] c jne show ?thesis by (auto simp: slash_def)
    next
      assume "\<exists>b. b \<noteq> [] \<and> path_resolve cwd [destDir] = slash # b \<and>
              resolveSafeBaseDir cwd destDir = slash # b @ [slash]"
      then obtain b where b: "b \<noteq> []" "path_resolve cwd [destDir] = slash # b"
        "resolveSafeBaseDir cwd destDir = slash # b @ [slash]" by blast
      with out r have "path_resolve cwd [destDir, rel] = slash # (b @ slash # join_with slash xs) @ slash # x"
        by simp
      with path_dirname_child[OF x, of "b @ slash # join_with slash xs"] b jne show ?thesis by auto
    qed
  qed
qed

subsection \<open>Containment\<close>

lemma extractZipEntries_ops:
  "op \<in> set (snd (extractZipEntries chmod_ok cwd destDir strip limits extractedBytes es)) \<Longrightarrow>
     \<exists>e \<in> set es. \<exists>xb. op \<in> set (snd (extractZipEntry chmod_ok cwd destDir strip limits xb e))"
proof (induction es arbitrary: extractedBytes)
  case Nil
  then show ?case by simp
next
  case (Cons e es)
  obtain r ops where step: "extractZipEntry chmod_ok cwd destDir strip limits extractedBytes e = (r, ops)"
    by (cases "extractZipEntry chmod_ok cwd destDir strip limits extractedBytes e")
  show ?case
  proof (cases r)
    case (Inl err)
    with step Cons.prems have "op \<in> set (snd (extractZipEntry chmod_ok cwd destDir strip limits extractedBytes e))"
      by simp
    then show ?thesis by auto
  next
    case (Inr xb')
    obtain r' ops' where rest: "extractZipEntries chmod_ok cwd destDir strip limits xb' es = (r', ops')"
      by (cases "extractZipEntries chmod_ok cwd destDir strip limits xb' es")
    with Inr step Cons.prems have "op \<in> set ops \<or> op \<in> set ops'" by simp
    then show ?thesis
    proof
      assume "op \<in> set ops"
      with step have "op \<in> set (snd (extractZipEntry chmod_ok cwd destDir strip limits extractedBytes e))"
        by simp
      then show ?thesis by auto
    next
      assume "op \<in> set ops'"
      with rest have "op \<in> set (snd (extractZipEntries chmod_ok cwd destDir strip limits xb' es))" by simp
      from Cons.IH[OF this] show ?thesis by auto
    qed
  qed
qed

lemma extractZipEntry_op_path:
  assumes "op \<in> set (snd (extractZipEntry chmod_ok cwd destDir strip limits extractedBytes entry))"
  shows "\<exists>rel outPath. stripArchivePath (name entry) strip = Some rel \<and>
           validateArchiveEntryPath rel = Inr () \<and>
           resolveCheckedOutPath cwd destDir rel (name entry) = Inr outPath \<and>
           (op_path op = outPath \<or> op = Mkdir (path_dirname outPath))"
proof -
  obtain r ops where step: "extractZipEntry chmod_ok cwd destDir strip limits extractedBytes entry = (r, ops)"
    by (cases "extractZipEntry chmod_ok cwd destDir strip limits extractedBytes entry")
  with assms have mem: "op \<in> set ops" by simp
  then have "ops \<noteq> []" by auto
  with extractZipEntry_ops[OF step]
  obtain rel outPath where s: "stripArchivePath (name entry) strip = Some rel"
    and v: "validateArchiveEntryPath rel = Inr ()"
    and c: "resolveCheckedOutPath cwd destDir rel (name entry) = Inr outPath"
    and shape: "(dir entry \<and> ops = [Mkdir outPath]) \<or>
         (\<not> dir entry \<and>
          (\<exists>r' wops. write_entry limits outPath extractedBytes (data entry) = (r', wops) \<and>
             (ops = Mkdir (path_dirname outPath) # wops \<or>
              ops = Mkdir (path_dirname outPath) # wops @
                      restore_permissions chmod_ok outPath (unixPermissions entry))))"
    by blast
  from shape have "op_path op = outPath \<or> op = Mkdir (path_dirname outPath)"
  proof
    assume "dir entry \<and> ops = [Mkdir outPath]"
    with mem show ?thesis by auto
  next
    assume "\<not> dir entry \<and>
          (\<exists>r' wops. write_entry limits outPath extractedBytes (data entry) = (r', wops) \<and>
             (ops = Mkdir (path_dirname outPath) # wops \<or>
              ops = Mkdir (path_dirname outPath) # wops @
                      restore_permissions chmod_ok outPath (unixPermissions entry)))"
    then obtain r' wops where w: "write_entry limits outPath extractedBytes (data entry) = (r', wops)"
      and o: "ops = Mkdir (path_dirname outPath) # wops \<or>
              ops = Mkdir (path_dirname outPath) # wops @
                      restore_permissions chmod_ok outPath (unixPermissions entry)"
      by blast
    from o mem have "op = Mkdir (path_dirname outPath) \<or> op \<in> set wops \<or>
        op \<in> set (restore_permissions chmod_ok outPath (unixPermissions entry))" by auto
    then show ?thesis
      using write_entry_ops[OF w, of op] restore_permissions_mem[of op chmod_ok outPath "unixPermissions entry"]
      by auto
  qed
  with s v c show ?thesis by blast
qed

lemma extractZip_op_path:
  assumes "op \<in> set (snd (extractZip chmod_ok cwd destDir stripComponents limits_in archive))"
  shows "\<exists>e \<in> set (entries archive). \<exists>rel.
           stripArchivePath (name e) (max 0 (or_else stripComponents 0)) = Some rel \<and>
           validateArchiveEntryPath rel = Inr () \<and>
           startsWith (path_resolve cwd [destDir, rel]) (resolveSafeBaseDir cwd destDir) \<and>
           (op_path op = path_resolve cwd [destDir, rel] \<or>
            op = Mkdir (path_dirname (path_resolve cwd [destDir, rel])))"
proof -
  from assms have "op \<in> set (snd (extractZipEntries chmod_ok cwd destDir (max 0 (or_else stripComponents 0))
       (resolveExtractLimits limits_in) 0 (entries archive)))"
    by (auto simp: extractZip_def Let_def split: if_splits)
  from extractZipEntries_ops[OF this] obtain e xb where e: "e \<in> set (entries archive)"
    and m: "op \<in> set (snd (extractZipEntry chmod_ok cwd destDir (max 0 (or_else stripComponents 0))
       (resolveExtractLimits limits_in) xb e))" by blast
  from extractZipEntry_op_path[OF m] e show ?thesis
    by (auto dest!: resolveCheckedOutPath_Inr)
qed

lemma resolveSafeBaseDir_shape:
  "endsWith (resolveSafeBaseDir cwd destDir) ''/'' \<and>
   startsWith (resolveSafeBaseDir cwd destDir) (path_resolve cwd [destDir])"
  by (auto simp: resolveSafeBaseDir_def Let_def endsWith_def startsWith_def)

lemma resolveCheckedOutPath_eq:
  "resolveCheckedOutPath cwd destDir rel original =
      (if startsWith (path_resolve cwd [destDir, rel]) (resolveSafeBaseDir cwd destDir)
       then Inr (path_resolve cwd [destDir, rel]) else Inl (EscapesDestination original))"
  by (simp add: resolveCheckedOutPath_def Let_def)

lemma extractZip_op_strict:
  assumes abs: "posix_isAbsolute cwd"
    and mem: "op \<in> set (snd (extractZip chmod_ok cwd destDir stripComponents limits_in archive))"
  shows "op = Mkdir (path_resolve cwd [destDir]) \<or>
         (\<exists>q. q \<noteq> [] \<and> op_path op = resolveSafeBaseDir cwd destDir @ q)"
proof -
  from extractZip_op_path[OF mem] obtain e :: zip_entry and rel where
    s: "stripArchivePath (name e) (max 0 (or_else stripComponents 0)) = Some rel"
    and v: "validateArchiveEntryPath rel = Inr ()"
    and p: "op_path op = path_resolve cwd [destDir, rel] \<or>
            op = Mkdir (path_dirname (path_resolve cwd [destDir, rel]))"
    by blast
  from p show ?thesis
  proof
    assume "op_path op = path_resolve cwd [destDir, rel]"
    with validated_path_is_contained[OF abs s v, of destDir] show ?thesis by auto
  next
    assume m: "op = Mkdir (path_dirname (path_resolve cwd [destDir, rel]))"
    from dirname_contained[OF abs s v, of destDir] show ?thesis
    proof
      assume "path_dirname (path_resolve cwd [destDir, rel]) = path_resolve cwd [destDir]"
      with m show ?thesis by simp
    next
      assume "\<exists>q. q \<noteq> [] \<and> path_dirname (path_resolve cwd [destDir, rel]) = resolveSafeBaseDir cwd destDir @ q"
      with m show ?thesis by auto
    qed
  qed
qed

lemma extractTar_strict:
  assumes abs: "posix_isAbsolute cwd"
    and mem: "(entry, outPath) \<in> set (snd (extractTar cwd destDir stripComponents limits_in archive))"
  shows "\<exists>q. q \<noteq> [] \<and> outPath = resolveSafeBaseDir cwd destDir @ q"
proof -
  from extractTar_unpacked[OF mem] obtain rel where
    s: "stripArchivePath (entry_path entry) (max 0 (or_else stripComponents 0)) = Some rel"
    and v: "validateArchiveEntryPath rel = Inr ()"
    and o: "outPath = path_resolve cwd [destDir, rel]" by blast
  from validated_path_is_contained[OF abs s v, of destDir] o show ?thesis by auto
qed

text \<open>
  C2. The candidate output path of an entry is \<^verbatim>\<open>path.resolve(destDir, relPath)\<close>, and
  \<^verbatim>\<open>resolveCheckedOutPath\<close> fails with the PathEscape error unless that path starts
  with the safe base, which is the resolved \<^verbatim>\<open>destDir\<close> ended by a separator; the
  check depends on the working directory, \<^verbatim>\<open>destDir\<close> and the relative path alone
  and is made anew for each entry. Every filesystem call of the zip extractor is on
  the candidate output path of an entry, which has passed the check, or creates the
  parent directory of that path; every entry that the tar hook lets through has
  passed the check. Where the working directory is absolute, the candidate output
  path is the safe base followed by a non-empty relative path, so it lies strictly
  within \<^verbatim>\<open>destDir\<close>, and a parent directory created is \<^verbatim>\<open>destDir\<close> itself or lies
  strictly within it.
\<close>

theorem writes_stay_under_destDir:
  "resolveCheckedOutPath cwd destDir rel original =
      (if startsWith (path_resolve cwd [destDir, rel]) (resolveSafeBaseDir cwd destDir)
       then Inr (path_resolve cwd [destDir, rel]) else Inl (EscapesDestination original))
   \<and> classify (EscapesDestination original) = PathEscape
   \<and> endsWith (resolveSafeBaseDir cwd destDir) ''/''
   \<and> startsWith (resolveSafeBaseDir cwd destDir) (path_resolve cwd [destDir])
   \<and> (\<forall>op \<in> set (snd (extractZip chmod_ok cwd destDir stripComponents limits_in zarchive)).
        \<exists>e \<in> set (entries zarchive). \<exists>r.
           stripArchivePath (name e) (max 0 (or_else stripComponents 0)) = Some r \<and>
           startsWith (path_resolve cwd [destDir, r]) (resolveSafeBaseDir cwd destDir) \<and>
           (op_path op = path_resolve cwd [destDir, r] \<or>
            op = Mkdir (path_dirname (path_resolve cwd [destDir, r]))))
   \<and> (\<forall>(e, outPath) \<in> set (snd (extractTar cwd destDir stripComponents limits_in archive)).
        e \<in> set archive \<and>
        (\<exists>r. stripArchivePath (entry_path e) (max 0 (or_else stripComponents 0)) = Some r \<and>
           outPath = path_resolve cwd [destDir, r] \<and>
           startsWith outPath (resolveSafeBaseDir cwd destDir)))
   \<and> (posix_isAbsolute cwd \<longrightarrow>
        (\<forall>op \<in> set (snd (extractZip chmod_ok cwd destDir stripComponents limits_in zarchive)).
            op = Mkdir (path_resolve cwd [destDir]) \<or>
            (\<exists>q. q \<noteq> [] \<and> op_path op = resolveSafeBaseDir cwd destDir @ q))
      \<and> (\<forall>(e, outPath) \<in> set (snd (extractTar cwd destDir stripComponents limits_in archive)).
            \<exists>q. q \<noteq> [] \<and> outPath = resolveSafeBaseDir cwd destDir @ q))"
proof (intro conjI impI ballI)
  show "resolveCheckedOutPath cwd destDir rel original =
      (if startsWith (path_resolve cwd [destDir, rel]) (resolveSafeBaseDir cwd destDir)
       then Inr (path_resolve cwd [destDir, rel]) else Inl (EscapesDestination original))"
    by (rule resolveCheckedOutPath_eq)
  show "classify (EscapesDestination original) = PathEscape" by simp
  show "endsWith (resolveSafeBaseDir cwd destDir) ''/''"
    using resolveSafeBaseDir_shape by blast
  show "startsWith (resolveSafeBaseDir cwd destDir) (path_resolve cwd [destDir])"
    using resolveSafeBaseDir_shape by blast
next
  fix op
  assume "op \<in> set (snd (extractZip chmod_ok cwd destDir stripComponents limits_in zarchive))"
  from extractZip_op_path[OF this]
  show "\<exists>e \<in> set (entries zarchive). \<exists>r.
           stripArchivePath (name e) (max 0 (or_else stripComponents 0)) = Some r \<and>
           startsWith (path_resolve cwd [destDir, r]) (resolveSafeBaseDir cwd destDir) \<and>
           (op_path op = path_resolve cwd [destDir, r] \<or>
            op = Mkdir (path_dirname (path_resolve cwd [destDir, r])))"
    by blast
next
  fix x
  assume "x \<in> set (snd (extractTar cwd destDir stripComponents limits_in archive))"
  then show "case x of (e, outPath) \<Rightarrow> e \<in> set archive \<and>
        (\<exists>r. stripArchivePath (entry_path e) (max 0 (or_else stripComponents 0)) = Some r \<and>
           outPath = path_resolve cwd [destDir, r] \<and>
           startsWith outPath (resolveSafeBaseDir cwd destDir))"
    using extractTar_unpacked[of "fst x" "snd x" cwd destDir stripComponents limits_in archive]
    by (cases x) auto
next
  fix op
  assume "posix_isAbsolute cwd"
    and "op \<in> set (snd (extractZip chmod_ok cwd destDir stripComponents limits_in zarchive))"
  then show "op = Mkdir (path_resolve cwd [destDir]) \<or>
            (\<exists>q. q \<noteq> [] \<and> op_path op = resolveSafeBaseDir cwd destDir @ q)"
    by (rule extractZip_op_strict)
next
  fix x
  assume "posix_isAbsolute cwd"
    and "x \<in> set (snd (extractTar cwd destDir stripComponents limits_in archive))"
  then show "case x of (e, outPath) \<Rightarrow> \<exists>q. q \<noteq> [] \<and> outPath = resolveSafeBaseDir cwd destDir @ q"
    using extractTar_strict[of cwd "fst x" "snd x" destDir stripComponents limits_in archive]
    by (cases x) auto
qed

theorem writes_stay_under_destDir_witness:
  "resolveCheckedOutPath ''/home/u'' ''dest'' ''a/b.txt'' ''pkg/a/b.txt'' = Inr ''/home/u/dest/a/b.txt''
   \<and> (\<exists>q. q \<noteq> [] \<and> ''/home/u/dest/a/b.txt'' = resolveSafeBaseDir ''/home/u'' ''dest'' @ q)"
proof -
  note t = writes_stay_under_destDir[where cwd = "''/home/u''" and destDir = "''dest''"
      and rel = "''a/b.txt''" and original = "''pkg/a/b.txt''" and stripComponents = "Some 1"
      and limits_in = None and archive = "[plain_file ''pkg/a/b.txt'']"]
  have r: "path_resolve ''/home/u'' [''dest'', ''a/b.txt''] = ''/home/u/dest/a/b.txt''" by code_simp
  have sw: "startsWith ''/home/u/dest/a/b.txt'' (resolveSafeBaseDir ''/home/u'' ''dest'')" by code_simp
  have ab: "posix_isAbsolute ''/home/u''" by code_simp
  have ex: "snd (extractTar ''/home/u'' ''dest'' (Some 1) None [plain_file ''pkg/a/b.txt''])
              = [(plain_file ''pkg/a/b.txt'', ''/home/u/dest/a/b.txt'')]" by code_simp
  from t r sw have "resolveCheckedOutPath ''/home/u'' ''dest'' ''a/b.txt'' ''pkg/a/b.txt''
      = Inr ''/home/u/dest/a/b.txt''" by simp
  moreover from t ab ex have "\<exists>q. q \<noteq> [] \<and> ''/home/u/dest/a/b.txt'' = resolveSafeBaseDir ''/home/u'' ''dest'' @ q"
    by simp
  ultimately show ?thesis by blast
qed

end
